theory Spec2Isabelle
  imports Main "HOL-Library.Word"
begin

unbundle bit_operations_syntax

section \<open>The socket stream framer of PyGPSClient (socket_handler.py)\<close>

text \<open>
  The model follows \<^verbatim>\<open>SocketHandler\<close> in \<^verbatim>\<open>pygpsclient/socket_handler.py\<close>:
  \<^verbatim>\<open>_read_bytes\<close>, \<^verbatim>\<open>parse_ubx\<close>, \<^verbatim>\<open>parse_nmea\<close>, \<^verbatim>\<open>parse_rtcm\<close>,
  \<^verbatim>\<open>parse_buffer\<close> and the receive loop of \<^verbatim>\<open>_read_thread\<close>.

  A \<^verbatim>\<open>bytes\<close>/\<^verbatim>\<open>bytearray\<close> value is a list of 8-bit words. Indices and lengths are
  natural numbers (the source never computes a negative one). The message queue
  \<^verbatim>\<open>self._msgqueue\<close> is a list, \<^verbatim>\<open>put\<close> appends at its end. Exceptions are values:
  \<^verbatim>\<open>EOFError\<close>, raised by \<^verbatim>\<open>_read_bytes\<close>, and whatever one of the three external
  decoders raises (\<^verbatim>\<open>UBXReader.parse\<close>, \<^verbatim>\<open>NMEAReader.parse\<close>, \<^verbatim>\<open>RTCMReader.parse\<close>);
  the decoders are parameters of the model, pure functions from the raw frame to either
  an exception or a parsed message. A decoder's exception is taken to be different from
  \<^verbatim>\<open>EOFError\<close> (the decoders raise their own parse errors), so \<^verbatim>\<open>parse_buffer\<close> does
  not catch it.
  The notification \<^verbatim>\<open>event_generate("<<socket_read>>")\<close> after each \<^verbatim>\<open>put\<close> is user
  interface plumbing and is left out.
\<close>

type_synonym byte = "8 word"
type_synonym bytes = "byte list"

datatype 'e exn = EOFError | DecodeError 'e

record ('e, 'p) decoders =
  ubx_parse :: "bytes \<Rightarrow> 'e + 'p"
  nmea_parse :: "bytes \<Rightarrow> 'e + 'p"
  rtcm_parse :: "bytes \<Rightarrow> 'e + 'p"

type_synonym 'p queue = "(bytes \<times> 'p) list"

text \<open>
  The two header constants come from \<^verbatim>\<open>pyubx2.ubxtypes_core\<close>:
  \<^verbatim>\<open>UBX_HDR = b"\xb5\x62"\<close> and \<^verbatim>\<open>NMEA_HDR = [b"\x24\x47", b"\x24\x50"]\<close>.
\<close>

definition UBX_HDR :: bytes where
  "UBX_HDR = [0xB5, 0x62]"

definition NMEA_HDR :: "bytes list" where
  "NMEA_HDR = [[0x24, 0x47], [0x24, 0x50]]"

subsection \<open>\<^verbatim>\<open>_read_bytes\<close>\<close>

definition read_bytes :: "bytes \<Rightarrow> nat \<Rightarrow> nat \<Rightarrow> 'e exn + bytes" where
  "read_bytes buf start num =
     (if length buf < start + num then Inl EOFError
      else Inr (take num (drop start buf)))"

subsection \<open>Calling a decoder\<close>

text \<open>
  Each of the three parsers ends with
  \<^verbatim>\<open>parsed_data = XReader.parse(raw_data); return raw_data, parsed_data\<close>.
  No parser catches what the decoder raises.
\<close>

definition decode_raw :: "(bytes \<Rightarrow> 'e + 'p) \<Rightarrow> bytes \<Rightarrow> 'e exn + (bytes \<times> 'p)" where
  "decode_raw parse raw_data =
     (case parse raw_data of
        Inl e \<Rightarrow> Inl (DecodeError e)
      | Inr parsed_data \<Rightarrow> Inr (raw_data, parsed_data))"

subsection \<open>\<^verbatim>\<open>parse_ubx\<close>\<close>

text \<open>\<^verbatim>\<open>int.from_bytes(bs, "little", signed=False)\<close>\<close>

fun from_bytes_little :: "bytes \<Rightarrow> nat" where
  "from_bytes_little [] = 0"
| "from_bytes_little (b # bs) = unat b + 256 * from_bytes_little bs"

definition parse_ubx ::
  "(bytes \<Rightarrow> 'e + 'p) \<Rightarrow> bytes \<Rightarrow> nat \<Rightarrow> bytes \<Rightarrow> 'e exn + (bytes \<times> 'p)" where
  "parse_ubx parse buf start hdr =
     (case read_bytes buf (start + 2) 4 of
        Inl e \<Rightarrow> Inl e
      | Inr byten \<Rightarrow>
          let lenb = from_bytes_little (take 2 (drop 2 byten)) in
          (case read_bytes buf (start + 6) (lenb + 2) of
             Inl e \<Rightarrow> Inl e
           | Inr tail \<Rightarrow>
               let raw_data = hdr @ byten @ tail in
               decode_raw parse raw_data))"

subsection \<open>\<^verbatim>\<open>parse_nmea\<close>\<close>

text \<open>
  The \<^verbatim>\<open>while True\<close> loop over \<^verbatim>\<open>i\<close>. \<^verbatim>\<open>byten[-2:]\<close> is the last two bytes, or all of
  \<^verbatim>\<open>byten\<close> when it is shorter. The loop ends because \<^verbatim>\<open>_read_bytes\<close> raises once
  \<^verbatim>\<open>start + 2 + i\<close> passes the end of the buffer.
\<close>

function parse_nmea_loop ::
  "(bytes \<Rightarrow> 'e + 'p) \<Rightarrow> bytes \<Rightarrow> nat \<Rightarrow> bytes \<Rightarrow> nat \<Rightarrow> 'e exn + (bytes \<times> 'p)" where
  "parse_nmea_loop parse buf start hdr i =
     (case read_bytes buf (start + 2) i of
        Inl e \<Rightarrow> Inl e
      | Inr byten \<Rightarrow>
          if drop (length byten - 2) byten = [0x0D, 0x0A] then
            (let raw_data = hdr @ byten in decode_raw parse raw_data)
          else parse_nmea_loop parse buf start hdr (i + 1))"
  by pat_completeness auto
termination
  by (relation "measure (\<lambda>(parse, buf, start, hdr, i). Suc (length buf) - (start + 2 + i))")
     (auto simp: read_bytes_def split: if_splits)

definition parse_nmea ::
  "(bytes \<Rightarrow> 'e + 'p) \<Rightarrow> bytes \<Rightarrow> nat \<Rightarrow> bytes \<Rightarrow> 'e exn + (bytes \<times> 'p)" where
  "parse_nmea parse buf start hdr = parse_nmea_loop parse buf start hdr 1"

subsection \<open>\<^verbatim>\<open>parse_rtcm\<close>\<close>

definition parse_rtcm ::
  "(bytes \<Rightarrow> 'e + 'p) \<Rightarrow> bytes \<Rightarrow> nat \<Rightarrow> bytes \<Rightarrow> 'e exn + (bytes \<times> 'p)" where
  "parse_rtcm parse buf start hdr =
     (case read_bytes buf (start + 2) 1 of
        Inl e \<Rightarrow> Inl e
      | Inr hdr3 \<Rightarrow>
          let lenb = unat (hdr3 ! 0) OR push_bit 8 (unat (hdr ! 1)) in
          (case read_bytes buf (start + 3) (lenb + 3) of
             Inl e \<Rightarrow> Inl e
           | Inr byten \<Rightarrow>
               let raw_data = hdr @ hdr3 @ byten in
               decode_raw parse raw_data))"

subsection \<open>\<^verbatim>\<open>parse_buffer\<close>\<close>

text \<open>
  One pass through the body of the \<^verbatim>\<open>try\<close> block at scan position \<^verbatim>\<open>start\<close>: it either
  executes \<^verbatim>\<open>continue\<close> with a new scan position, or has a (raw, parsed) pair to put on the
  queue, or raises.
\<close>

datatype 'p step = Continue nat | Found bytes 'p

definition found :: "'e exn + (bytes \<times> 'p) \<Rightarrow> 'e exn + 'p step" where
  "found r = (case r of Inl e \<Rightarrow> Inl e
              | Inr (raw_data, parsed_data) \<Rightarrow> Inr (Found raw_data parsed_data))"

definition try_body :: "('e, 'p) decoders \<Rightarrow> bytes \<Rightarrow> nat \<Rightarrow> 'e exn + 'p step" where
  "try_body D buf start =
     (case read_bytes buf start 1 of
        Inl e \<Rightarrow> Inl e
      | Inr byte1 \<Rightarrow>
          if byte1 \<notin> set [[0x24], [0xB5], [0xD3]] then Inr (Continue (start + 1))
          else
            (case read_bytes buf (start + 1) 1 of
               Inl e \<Rightarrow> Inl e
             | Inr byte2 \<Rightarrow>
                 let bytehdr = byte1 @ byte2 in
                 if bytehdr = UBX_HDR then
                   found (parse_ubx (ubx_parse D) buf start bytehdr)
                 else if bytehdr \<in> set NMEA_HDR then
                   found (parse_nmea (nmea_parse D) buf start bytehdr)
                 else if byte1 = [0xD3] \<and> uint (byte2 ! 0) AND NOT 3 = 0 then
                   found (parse_rtcm (rtcm_parse D) buf start bytehdr)
                 else Inr (Continue (start + 2))))"

lemma try_body_Continue:
  "try_body D buf start = Inr (Continue s) \<Longrightarrow> start < s \<and> s \<le> length buf"
  by (auto simp: try_body_def read_bytes_def found_def Let_def
           split: if_splits sum.splits prod.splits)

text \<open>
  The \<^verbatim>\<open>while start < len(buf)\<close> loop. The result is what \<^verbatim>\<open>parse_buffer\<close> returns,
  \<^verbatim>\<open>(raw_data, buf_remain)\<close>, or the exception that leaves it (only \<^verbatim>\<open>EOFError\<close> is
  caught), together with the message queue.
\<close>

function parse_buffer_loop ::
  "('e, 'p) decoders \<Rightarrow> 'p queue \<Rightarrow> bytes \<Rightarrow> nat \<Rightarrow> ('e + bytes option \<times> bytes) \<times> 'p queue" where
  "parse_buffer_loop D q buf start =
     (if start < length buf then
        (case try_body D buf start of
           Inr (Continue start') \<Rightarrow> parse_buffer_loop D q buf start'
         | Inr (Found raw_data parsed_data) \<Rightarrow>
             (Inr (Some raw_data, drop (start + length raw_data) buf),
              q @ [(raw_data, parsed_data)])
         | Inl EOFError \<Rightarrow> (Inr (None, buf), q)
         | Inl (DecodeError e) \<Rightarrow> (Inl e, q))
      else (Inr (None, buf), q))"
  by pat_completeness auto
termination
  by (relation "measure (\<lambda>(D, q, buf, start). length buf - start)")
     (auto dest!: try_body_Continue)

definition parse_buffer ::
  "('e, 'p) decoders \<Rightarrow> 'p queue \<Rightarrow> bytes \<Rightarrow> ('e + bytes option \<times> bytes) \<times> 'p queue" where
  "parse_buffer D q buf = parse_buffer_loop D q buf 0"

section \<open>Framing facts\<close>

subsection \<open>The parsers as closed equations\<close>

lemma decode_raw_not_EOF [simp]: "decode_raw dec raw \<noteq> Inl EOFError"
  by (simp add: decode_raw_def split: sum.splits)

lemma decode_raw_Inr: "decode_raw dec raw = Inr (r, p) \<longleftrightarrow> r = raw \<and> dec raw = Inr p"
  by (auto simp: decode_raw_def split: sum.splits)

lemma decode_raw_Inl: "decode_raw dec raw = Inl x \<longleftrightarrow> (\<exists>e. x = DecodeError e \<and> dec raw = Inl e)"
  by (auto simp: decode_raw_def split: sum.splits)

text \<open>
  The payload length that the UBX header at scan position \<open>start\<close> declares: bytes 3 and
  4 of the four bytes behind the sync, little-endian.
\<close>

definition ubx_len :: "bytes \<Rightarrow> nat \<Rightarrow> nat" where
  "ubx_len buf start = from_bytes_little [buf ! (start + 4), buf ! (start + 5)]"

lemma parse_ubx_eq:
  "parse_ubx dec buf start hdr =
     (if length buf < start + 6 then Inl EOFError
      else if length buf < start + 8 + ubx_len buf start then Inl EOFError
      else decode_raw dec (hdr @ take (6 + ubx_len buf start) (drop (start + 2) buf)))"
proof (cases "length buf < start + 6")
  case True
  then show ?thesis by (simp add: parse_ubx_def read_bytes_def)
next
  case False
  define byten where "byten = take 4 (drop (start + 2) buf)"
  define L where "L = ubx_len buf start"
  have len: "length byten = 4" using False by (simp add: byten_def)
  have b2: "take 2 (drop 2 byten) = [buf ! (start + 4), buf ! (start + 5)]"
    using False len unfolding byten_def
    by (auto simp: list_eq_iff_nth_eq less_Suc_eq eval_nat_numeral)
  have rb: "read_bytes buf (start + 2) 4 = (Inr byten :: 'a exn + bytes)"
    using False by (simp add: read_bytes_def byten_def)
  have lenb: "from_bytes_little (take 2 (drop 2 byten)) = L"
    unfolding b2 L_def ubx_len_def ..
  have step1: "parse_ubx dec buf start hdr =
      (case read_bytes buf (start + 6) (L + 2) of
         Inl e \<Rightarrow> Inl e
       | Inr tail \<Rightarrow> decode_raw dec (hdr @ byten @ tail))"
    unfolding parse_ubx_def rb sum.case Let_def lenb ..
  show ?thesis
  proof (cases "length buf < start + 8 + L")
    case True
    then have "read_bytes buf (start + 6) (L + 2) = (Inl EOFError :: 'a exn + bytes)"
      by (simp add: read_bytes_def)
    then show ?thesis using True False unfolding step1 L_def by simp
  next
    case F2: False
    then have rb2: "read_bytes buf (start + 6) (L + 2)
        = (Inr (take (L + 2) (drop (start + 6) buf)) :: 'a exn + bytes)"
      by (simp add: read_bytes_def)
    have "take (4 + (L + 2)) (drop (start + 2) buf)
        = take 4 (drop (start + 2) buf) @ take (L + 2) (drop 4 (drop (start + 2) buf))"
      by (rule take_add)
    also have "drop 4 (drop (start + 2) buf) = drop (start + 6) buf"
      by (simp add: add.commute)
    finally have tk: "byten @ take (L + 2) (drop (start + 6) buf)
        = take (6 + L) (drop (start + 2) buf)"
      by (simp add: byten_def add.commute)
    show ?thesis using F2 False unfolding step1 rb2 L_def[symmetric]
      by (simp only: sum.case tk if_False)
  qed
qed

text \<open>
  The payload length \<^verbatim>\<open>hdr3[0] | (hdr[1] << 8)\<close> of an RTCM3 header at scan position
  \<open>start\<close>.
\<close>

definition rtcm_len :: "bytes \<Rightarrow> nat \<Rightarrow> bytes \<Rightarrow> nat" where
  "rtcm_len buf start hdr = unat (buf ! (start + 2)) OR push_bit 8 (unat (hdr ! 1))"

lemma parse_rtcm_eq:
  "parse_rtcm dec buf start hdr =
     (if length buf < start + 3 then Inl EOFError
      else if length buf < start + 6 + rtcm_len buf start hdr then Inl EOFError
      else decode_raw dec (hdr @ take (4 + rtcm_len buf start hdr) (drop (start + 2) buf)))"
proof (cases "length buf < start + 3")
  case True
  then show ?thesis by (simp add: parse_rtcm_def read_bytes_def)
next
  case False
  define hdr3 where "hdr3 = take 1 (drop (start + 2) buf)"
  define L where "L = rtcm_len buf start hdr"
  have h0: "hdr3 ! 0 = buf ! (start + 2)"
    using False by (simp add: hdr3_def)
  have rb: "read_bytes buf (start + 2) 1 = (Inr hdr3 :: 'a exn + bytes)"
    using False by (simp add: read_bytes_def hdr3_def)
  have lenb: "unat (hdr3 ! 0) OR push_bit 8 (unat (hdr ! 1)) = L"
    unfolding h0 L_def rtcm_len_def ..
  have step1: "parse_rtcm dec buf start hdr =
      (case read_bytes buf (start + 3) (L + 3) of
         Inl e \<Rightarrow> Inl e
       | Inr byten \<Rightarrow> decode_raw dec (hdr @ hdr3 @ byten))"
    unfolding parse_rtcm_def rb sum.case Let_def lenb ..
  show ?thesis
  proof (cases "length buf < start + 6 + L")
    case True
    then have "read_bytes buf (start + 3) (L + 3) = (Inl EOFError :: 'a exn + bytes)"
      by (simp add: read_bytes_def)
    then show ?thesis using True False unfolding step1 L_def by simp
  next
    case F2: False
    then have rb2: "read_bytes buf (start + 3) (L + 3)
        = (Inr (take (L + 3) (drop (start + 3) buf)) :: 'a exn + bytes)"
      by (simp add: read_bytes_def)
    have "take (1 + (L + 3)) (drop (start + 2) buf)
        = take 1 (drop (start + 2) buf) @ take (L + 3) (drop 1 (drop (start + 2) buf))"
      by (rule take_add)
    also have "drop 1 (drop (start + 2) buf) = drop (start + 3) buf"
      by (simp add: eval_nat_numeral)
    finally have tk: "hdr3 @ take (L + 3) (drop (start + 3) buf)
        = take (4 + L) (drop (start + 2) buf)"
      by (simp add: hdr3_def add.commute)
    show ?thesis using F2 False unfolding step1 rb2 L_def[symmetric]
      by (simp only: sum.case tk if_False)
  qed
qed

text \<open>
  The test \<^verbatim>\<open>byten[-2:] == b"\x0d\x0a"\<close> for \<^verbatim>\<open>byten\<close> the first \<open>i\<close> bytes of \<open>body\<close>,
  the bytes behind the 2-byte header.
\<close>

definition crlf_end :: "bytes \<Rightarrow> nat \<Rightarrow> bool" where
  "crlf_end body i = (drop (i - 2) (take i body) = [0x0D, 0x0A])"

lemma parse_nmea_loop_eq:
  "parse_nmea_loop dec buf start hdr i =
     (if length buf < start + 2 + i then Inl EOFError
      else if crlf_end (drop (start + 2) buf) i
      then decode_raw dec (hdr @ take i (drop (start + 2) buf))
      else parse_nmea_loop dec buf start hdr (i + 1))"
proof (cases "length buf < start + 2 + i")
  case True
  then have "read_bytes buf (start + 2) i = (Inl EOFError :: 'a exn + bytes)"
    by (simp add: read_bytes_def)
  then show ?thesis using True
    by (subst parse_nmea_loop.simps) (simp only: sum.case if_True)
next
  case False
  then have rb: "read_bytes buf (start + 2) i = (Inr (take i (drop (start + 2) buf)) :: 'a exn + bytes)"
    by (simp add: read_bytes_def)
  have len: "length (take i (drop (start + 2) buf)) = i"
    using False by simp
  show ?thesis using False
    by (subst parse_nmea_loop.simps) (simp only: rb sum.case len crlf_end_def Let_def if_False)
qed


subsection \<open>Extension\<close>

lemma ubx_len_append: "start + 6 \<le> length buf \<Longrightarrow> ubx_len (buf @ ext) start = ubx_len buf start"
  by (simp add: ubx_len_def nth_append)

lemma rtcm_len_append: "start + 3 \<le> length buf \<Longrightarrow> rtcm_len (buf @ ext) start hdr = rtcm_len buf start hdr"
  by (simp add: rtcm_len_def nth_append)

lemma take_drop_append: "s + n \<le> length buf \<Longrightarrow> take n (drop s (buf @ ext)) = take n (drop s buf)"
  by simp

lemma parse_ubx_append:
  assumes "parse_ubx dec buf start hdr \<noteq> Inl EOFError"
  shows "parse_ubx dec (buf @ ext) start hdr = parse_ubx dec buf start hdr"
proof -
  from assms have a: "start + 6 \<le> length buf" "start + 8 + ubx_len buf start \<le> length buf"
    by (auto simp: parse_ubx_eq split: if_splits)
  have "take (6 + ubx_len buf start) (drop (start + 2) (buf @ ext))
      = take (6 + ubx_len buf start) (drop (start + 2) buf)"
    using a by (intro take_drop_append) simp
  then show ?thesis using a
    by (simp add: parse_ubx_eq[of dec "buf @ ext"] parse_ubx_eq[of dec buf] ubx_len_append)
qed

lemma parse_rtcm_append:
  assumes "parse_rtcm dec buf start hdr \<noteq> Inl EOFError"
  shows "parse_rtcm dec (buf @ ext) start hdr = parse_rtcm dec buf start hdr"
proof -
  from assms have a: "start + 3 \<le> length buf" "start + 6 + rtcm_len buf start hdr \<le> length buf"
    by (auto simp: parse_rtcm_eq split: if_splits)
  have "take (4 + rtcm_len buf start hdr) (drop (start + 2) (buf @ ext))
      = take (4 + rtcm_len buf start hdr) (drop (start + 2) buf)"
    using a by (intro take_drop_append) simp
  then show ?thesis using a
    by (simp add: parse_rtcm_eq[of dec "buf @ ext"] parse_rtcm_eq[of dec buf] rtcm_len_append)
qed

lemma crlf_end_take: "i \<le> n \<Longrightarrow> crlf_end (take n body) i = crlf_end body i"
  by (simp add: crlf_end_def min_absorb1)

lemma crlf_end_append: "i \<le> length body \<Longrightarrow> crlf_end (body @ ext) i = crlf_end body i"
  by (simp add: crlf_end_def)

lemma parse_nmea_loop_append:
  assumes "parse_nmea_loop dec buf start hdr i \<noteq> Inl EOFError"
  shows "parse_nmea_loop dec (buf @ ext) start hdr i = parse_nmea_loop dec buf start hdr i"
  using assms
proof (induction dec buf start hdr i rule: parse_nmea_loop.induct)
  case (1 dec buf start hdr i)
  from "1.prems" have a: "start + 2 + i \<le> length buf"
    by (subst (asm) parse_nmea_loop_eq) (auto split: if_splits)
  then have rb: "read_bytes buf (start + 2) i = (Inr (take i (drop (start + 2) buf)) :: 'a exn + bytes)"
    by (simp add: read_bytes_def)
  have len: "length (take i (drop (start + 2) buf)) = i" using a by simp
  have t: "take i (drop (start + 2) (buf @ ext)) = take i (drop (start + 2) buf)"
    using a by (intro take_drop_append) simp
  have c: "crlf_end (drop (start + 2) (buf @ ext)) i = crlf_end (drop (start + 2) buf) i"
    using a by (simp add: crlf_end_def)
  show ?case
  proof (cases "crlf_end (drop (start + 2) buf) i")
    case True
    then show ?thesis using a c t
      by (subst parse_nmea_loop_eq, subst (2) parse_nmea_loop_eq) simp
  next
    case False
    then have F': "drop (length (take i (drop (start + 2) buf)) - 2) (take i (drop (start + 2) buf)) \<noteq> [0x0D, 0x0A]"
      unfolding len crlf_end_def .
    have ne: "parse_nmea_loop dec buf start hdr (i + 1) \<noteq> Inl EOFError"
      using "1.prems" False a by (subst (asm) parse_nmea_loop_eq) simp
    have "parse_nmea_loop dec (buf @ ext) start hdr (i + 1) = parse_nmea_loop dec buf start hdr (i + 1)"
      using "1.IH"[OF rb F' ne] .
    then show ?thesis using False a c
      by (subst parse_nmea_loop_eq, subst (2) parse_nmea_loop_eq) simp
  qed
qed


lemma parse_nmea_append:
  "parse_nmea dec buf start hdr \<noteq> Inl EOFError \<Longrightarrow>
   parse_nmea dec (buf @ ext) start hdr = parse_nmea dec buf start hdr"
  unfolding parse_nmea_def by (rule parse_nmea_loop_append)

lemma found_EOF [simp]: "found r = Inl e \<longleftrightarrow> r = Inl e"
  by (simp add: found_def split: sum.splits prod.splits)

lemma found_Continue [simp]: "found r \<noteq> Inr (Continue s)"
  by (simp add: found_def split: sum.splits prod.splits)

lemma found_Found [simp]: "found r = Inr (Found raw p) \<longleftrightarrow> r = Inr (raw, p)"
  by (auto simp: found_def split: sum.splits prod.splits)

text \<open>The first sync bytes: \<^verbatim>\<open>byte1 in (b"\x24", b"\xb5", b"\xd3")\<close>.\<close>

definition sync1 :: "byte \<Rightarrow> bool" where
  "sync1 b = (b = 0x24 \<or> b = 0xB5 \<or> b = 0xD3)"

lemma try_body_eq:
  "try_body D buf start =
     (if length buf < start + 1 then Inl EOFError
      else if \<not> sync1 (buf ! start) then Inr (Continue (start + 1))
      else if length buf < start + 2 then Inl EOFError
      else if [buf ! start, buf ! (start + 1)] = UBX_HDR then
        found (parse_ubx (ubx_parse D) buf start [buf ! start, buf ! (start + 1)])
      else if [buf ! start, buf ! (start + 1)] \<in> set NMEA_HDR then
        found (parse_nmea (nmea_parse D) buf start [buf ! start, buf ! (start + 1)])
      else if buf ! start = 0xD3 \<and> uint (buf ! (start + 1)) AND NOT 3 = 0 then
        found (parse_rtcm (rtcm_parse D) buf start [buf ! start, buf ! (start + 1)])
      else Inr (Continue (start + 2)))"
proof (cases "length buf < start + 1")
  case True
  then show ?thesis by (simp add: try_body_def read_bytes_def)
next
  case False
  then have rb1: "read_bytes buf start 1 = (Inr [buf ! start] :: 'a exn + bytes)"
    by (simp add: read_bytes_def take_Suc_conv_app_nth)
  show ?thesis
  proof (cases "length buf < start + 2")
    case True
    then have rb2: "read_bytes buf (start + 1) 1 = (Inl EOFError :: 'a exn + bytes)"
      by (simp add: read_bytes_def)
    show ?thesis using False True unfolding try_body_def rb1 rb2 sum.case
      by (auto simp: sync1_def)
  next
    case F2: False
    then have rb2: "read_bytes buf (start + 1) 1 = (Inr [buf ! (start + 1)] :: 'a exn + bytes)"
      by (simp add: read_bytes_def take_Suc_conv_app_nth)
    show ?thesis using False F2 unfolding try_body_def rb1 rb2 sum.case Let_def
      by (auto simp: sync1_def)
  qed
qed

lemma try_body_append:
  assumes "try_body D buf start \<noteq> Inl EOFError"
  shows "try_body D (buf @ ext) start = try_body D buf start"
proof -
  from assms have a: "start < length buf"
    by (auto simp: try_body_eq split: if_splits)
  show ?thesis
  proof (cases "sync1 (buf ! start)")
    case False
    then show ?thesis using a by (simp add: try_body_eq nth_append)
  next
    case True
    with assms a have b: "start + 1 < length buf"
      by (auto simp: try_body_eq split: if_splits)
    have n: "(buf @ ext) ! start = buf ! start" "(buf @ ext) ! (start + 1) = buf ! (start + 1)"
      using b by (simp_all add: nth_append)
    have nb: "\<not> length buf < start + 1" "\<not> length buf < start + 2"
      "\<not> length (buf @ ext) < start + 1" "\<not> length (buf @ ext) < start + 2"
      using b by simp_all
    show ?thesis
      using assms True
      unfolding try_body_eq[of D "buf @ ext"] try_body_eq[of D buf] n
      by (simp only: nb if_False)
         (auto simp: parse_ubx_append parse_nmea_append parse_rtcm_append split: if_splits)
  qed
qed


subsection \<open>Shape of an extracted frame\<close>

lemma hdr_take: "start + 2 \<le> length buf \<Longrightarrow> [buf ! start, buf ! (start + 1)] = take 2 (drop start buf)"
  by (auto simp: list_eq_iff_nth_eq less_Suc_eq eval_nat_numeral)

lemma hdr_body_take:
  assumes "start + 2 \<le> length buf"
  shows "[buf ! start, buf ! (start + 1)] @ take n (drop (start + 2) buf) = take (2 + n) (drop start buf)"
proof -
  have "take (2 + n) (drop start buf) = take 2 (drop start buf) @ take n (drop 2 (drop start buf))"
    by (rule take_add)
  also have "drop 2 (drop start buf) = drop (start + 2) buf"
    by (simp add: add.commute)
  finally show ?thesis using hdr_take[OF assms] by simp
qed

lemma parse_nmea_loop_Inr:
  assumes "parse_nmea_loop dec buf start hdr i = Inr (raw, p)"
  shows "\<exists>n\<ge>i. start + 2 + n \<le> length buf \<and> raw = hdr @ take n (drop (start + 2) buf)
           \<and> crlf_end (drop (start + 2) buf) n
           \<and> (\<forall>j. i \<le> j \<and> j < n \<longrightarrow> \<not> crlf_end (drop (start + 2) buf) j)
           \<and> dec raw = Inr p"
  using assms
proof (induction dec buf start hdr i rule: parse_nmea_loop.induct)
  case (1 dec buf start hdr i)
  from "1.prems" have a: "start + 2 + i \<le> length buf"
    by (subst (asm) parse_nmea_loop_eq) (auto split: if_splits)
  then have rb: "read_bytes buf (start + 2) i = (Inr (take i (drop (start + 2) buf)) :: 'a exn + bytes)"
    by (simp add: read_bytes_def)
  have len: "length (take i (drop (start + 2) buf)) = i" using a by simp
  show ?case
  proof (cases "crlf_end (drop (start + 2) buf) i")
    case True
    with "1.prems" a have "decode_raw dec (hdr @ take i (drop (start + 2) buf)) = Inr (raw, p)"
      by (subst (asm) parse_nmea_loop_eq) simp
    then have "raw = hdr @ take i (drop (start + 2) buf)" "dec raw = Inr p"
      by (auto simp: decode_raw_Inr)
    with True a show ?thesis by (intro exI[of _ i]) auto
  next
    case False
    then have F': "drop (length (take i (drop (start + 2) buf)) - 2) (take i (drop (start + 2) buf)) \<noteq> [0x0D, 0x0A]"
      unfolding len crlf_end_def .
    have nx: "parse_nmea_loop dec buf start hdr (i + 1) = Inr (raw, p)"
      using "1.prems" False a by (subst (asm) parse_nmea_loop_eq) simp
    from "1.IH"[OF rb F' nx] obtain n where n: "n \<ge> i + 1" "start + 2 + n \<le> length buf"
      "raw = hdr @ take n (drop (start + 2) buf)" "crlf_end (drop (start + 2) buf) n"
      "\<forall>j. i + 1 \<le> j \<and> j < n \<longrightarrow> \<not> crlf_end (drop (start + 2) buf) j" "dec raw = Inr p"
      by blast
    have "\<forall>j. i \<le> j \<and> j < n \<longrightarrow> \<not> crlf_end (drop (start + 2) buf) j"
    proof (intro allI impI)
      fix j assume "i \<le> j \<and> j < n"
      then show "\<not> crlf_end (drop (start + 2) buf) j"
        using False n(5) by (cases "j = i") auto
    qed
    with n show ?thesis by (intro exI[of _ n]) auto
  qed
qed

lemma try_body_Found_ubx:
  assumes "try_body D buf start = Inr (Found raw p)" "buf ! start = 0xB5"
  shows "raw = take (8 + ubx_len buf start) (drop start buf)"
    "start + 8 + ubx_len buf start \<le> length buf" "ubx_parse D raw = Inr p"
    "[buf ! start, buf ! (start + 1)] = UBX_HDR"
proof -
  from assms have a: "start + 2 \<le> length buf" "[buf ! start, buf ! (start + 1)] = UBX_HDR"
    by (auto simp: try_body_eq UBX_HDR_def NMEA_HDR_def split: if_splits)
  with assms have pu: "parse_ubx (ubx_parse D) buf start [buf ! start, buf ! (start + 1)] = Inr (raw, p)"
    by (auto simp: try_body_eq split: if_splits)
  then have b: "start + 8 + ubx_len buf start \<le> length buf"
    and d: "decode_raw (ubx_parse D) ([buf ! start, buf ! (start + 1)] @ take (6 + ubx_len buf start) (drop (start + 2) buf)) = Inr (raw, p)"
    by (auto simp: parse_ubx_eq split: if_splits)
  from d have "raw = [buf ! start, buf ! (start + 1)] @ take (6 + ubx_len buf start) (drop (start + 2) buf)"
    and e: "ubx_parse D raw = Inr p"
    by (auto simp: decode_raw_Inr)
  then have "raw = take (2 + (6 + ubx_len buf start)) (drop start buf)"
    using hdr_body_take[OF a(1)] by simp
  then show "raw = take (8 + ubx_len buf start) (drop start buf)" by simp
  show "start + 8 + ubx_len buf start \<le> length buf" by fact
  show "ubx_parse D raw = Inr p" by fact
  show "[buf ! start, buf ! (start + 1)] = UBX_HDR" by fact
qed

lemma and_not_3_int: "(x::int) AND NOT 3 = 0 \<longleftrightarrow> take_bit 2 x = x"
proof -
  have m: "(3::int) = mask 2" by (simp add: mask_eq_exp_minus_1)
  show ?thesis unfolding m
    by (auto simp: bit_eq_iff bit_simps)
qed

lemma rtcm_guard_iff: "uint (b :: byte) AND NOT 3 = 0 \<longleftrightarrow> unat b < 4"
proof -
  have "uint b AND NOT 3 = 0 \<longleftrightarrow> take_bit 2 (uint b) = uint b"
    by (rule and_not_3_int)
  also have "\<dots> \<longleftrightarrow> 0 \<le> uint b \<and> uint b < 2 ^ 2"
    by (rule take_bit_int_eq_self_iff)
  also have "\<dots> \<longleftrightarrow> uint b < 4"
    by simp
  also have "\<dots> \<longleftrightarrow> unat b < 4"
    unfolding unat_eq_nat_uint by linarith
  finally show ?thesis .
qed

lemma or_push_bit_8: "x < 256 \<Longrightarrow> (x::nat) OR push_bit 8 y = x + 256 * y"
proof -
  assume "x < 256"
  then have t: "take_bit 8 x = x" by (simp add: take_bit_nat_eq_self_iff)
  have "take_bit 8 x AND push_bit 8 y = 0"
    by (auto simp: bit_eq_iff bit_simps)
  then have "x AND push_bit 8 y = 0" by (simp add: t)
  then have "x + push_bit 8 y = x OR push_bit 8 y" by (rule disjunctive_add_eq_or)
  then show ?thesis by (simp add: push_bit_eq_mult)
qed

lemma crlf_end_bounds: "crlf_end body n \<Longrightarrow> 2 \<le> n \<and> n \<le> length body"
proof -
  assume "crlf_end body n"
  then have "length (drop (n - 2) (take n body)) = 2"
    by (simp add: crlf_end_def)
  then show ?thesis by (simp add: min_def split: if_splits) arith+
qed

lemma try_body_Found_rtcm:
  assumes "try_body D buf start = Inr (Found raw p)" "buf ! start = 0xD3"
  shows "raw = take (6 + rtcm_len buf start [buf ! start, buf ! (start + 1)]) (drop start buf)"
    "start + 6 + rtcm_len buf start [buf ! start, buf ! (start + 1)] \<le> length buf"
    "rtcm_parse D raw = Inr p"
    "uint (buf ! (start + 1)) AND NOT 3 = 0"
proof -
  let ?hdr = "[buf ! start, buf ! (start + 1)]"
  from assms have a: "start + 2 \<le> length buf" "uint (buf ! (start + 1)) AND NOT 3 = 0"
    by (auto simp: try_body_eq UBX_HDR_def NMEA_HDR_def split: if_splits)
  with assms have pu: "parse_rtcm (rtcm_parse D) buf start ?hdr = Inr (raw, p)"
    by (auto simp: try_body_eq UBX_HDR_def NMEA_HDR_def split: if_splits)
  then have b: "start + 6 + rtcm_len buf start ?hdr \<le> length buf"
    and d: "decode_raw (rtcm_parse D) (?hdr @ take (4 + rtcm_len buf start ?hdr) (drop (start + 2) buf)) = Inr (raw, p)"
    by (auto simp: parse_rtcm_eq split: if_splits)
  from d have "raw = ?hdr @ take (4 + rtcm_len buf start ?hdr) (drop (start + 2) buf)"
    and e: "rtcm_parse D raw = Inr p"
    by (auto simp: decode_raw_Inr)
  then have "raw = take (2 + (4 + rtcm_len buf start ?hdr)) (drop start buf)"
    using hdr_body_take[OF a(1)] by simp
  then show "raw = take (6 + rtcm_len buf start ?hdr) (drop start buf)" by simp
  show "start + 6 + rtcm_len buf start ?hdr \<le> length buf" by fact
  show "rtcm_parse D raw = Inr p" by fact
  show "uint (buf ! (start + 1)) AND NOT 3 = 0" by fact
qed

lemma try_body_Found_nmea:
  assumes "try_body D buf start = Inr (Found raw p)" "buf ! start = 0x24"
  shows "\<exists>n\<ge>1. raw = take (2 + n) (drop start buf) \<and> start + 2 + n \<le> length buf
           \<and> crlf_end (drop (start + 2) buf) n
           \<and> (\<forall>j. 1 \<le> j \<and> j < n \<longrightarrow> \<not> crlf_end (drop (start + 2) buf) j)"
    "nmea_parse D raw = Inr p"
    "[buf ! start, buf ! (start + 1)] \<in> set NMEA_HDR"
proof -
  let ?hdr = "[buf ! start, buf ! (start + 1)]"
  from assms have a: "start + 2 \<le> length buf" "?hdr \<in> set NMEA_HDR"
    by (auto simp: try_body_eq UBX_HDR_def split: if_splits)
  with assms have pu: "parse_nmea_loop (nmea_parse D) buf start ?hdr 1 = Inr (raw, p)"
    by (auto simp: try_body_eq UBX_HDR_def parse_nmea_def split: if_splits)
  from parse_nmea_loop_Inr[OF pu] obtain n where n: "n \<ge> 1" "start + 2 + n \<le> length buf"
      "raw = ?hdr @ take n (drop (start + 2) buf)" "crlf_end (drop (start + 2) buf) n"
      "\<forall>j. 1 \<le> j \<and> j < n \<longrightarrow> \<not> crlf_end (drop (start + 2) buf) j" "nmea_parse D raw = Inr p"
    by blast
  have "raw = take (2 + n) (drop start buf)"
    using n(3) hdr_body_take[OF a(1)] by simp
  with n show "\<exists>n\<ge>1. raw = take (2 + n) (drop start buf) \<and> start + 2 + n \<le> length buf
           \<and> crlf_end (drop (start + 2) buf) n
           \<and> (\<forall>j. 1 \<le> j \<and> j < n \<longrightarrow> \<not> crlf_end (drop (start + 2) buf) j)"
    by blast
  show "nmea_parse D raw = Inr p" by fact
  show "?hdr \<in> set NMEA_HDR" by fact
qed

lemma try_body_Found_sync:
  assumes "try_body D buf start = Inr (Found raw p)"
  shows "buf ! start = 0xB5 \<or> buf ! start = 0x24 \<or> buf ! start = 0xD3" "start + 2 \<le> length buf"
  using assms by (auto simp: try_body_eq sync1_def split: if_splits)

lemma try_body_Found_slice:
  assumes "try_body D buf start = Inr (Found raw p)"
  shows "start + length raw \<le> length buf \<and> raw = take (length raw) (drop start buf) \<and> 4 \<le> length raw"
proof -
  from try_body_Found_sync[OF assms] consider "buf ! start = 0xB5" | "buf ! start = 0x24" | "buf ! start = 0xD3"
    by blast
  then show ?thesis
  proof cases
    case 1
    from try_body_Found_ubx(1,2)[OF assms 1] show ?thesis by simp
  next
    case 2
    from try_body_Found_nmea(1)[OF assms 2] show ?thesis
      by (auto dest: crlf_end_bounds)
  next
    case 3
    from try_body_Found_rtcm(1,2)[OF assms 3] show ?thesis by simp
  qed
qed

subsection \<open>The scan loop\<close>

declare parse_buffer_loop.simps [simp del]

lemma try_body_in_range: "try_body D buf start \<noteq> Inl EOFError \<Longrightarrow> start < length buf"
  by (auto simp: try_body_eq split: if_splits)

lemma loop_end: "\<not> start < length buf \<Longrightarrow> parse_buffer_loop D q buf start = (Inr (None, buf), q)"
  by (subst parse_buffer_loop.simps) simp

lemma loop_Continue:
  "try_body D buf start = Inr (Continue s) \<Longrightarrow>
   parse_buffer_loop D q buf start = parse_buffer_loop D q buf s"
  by (subst parse_buffer_loop.simps) (auto dest: try_body_Continue)

lemma loop_Found:
  "try_body D buf start = Inr (Found raw p) \<Longrightarrow>
   parse_buffer_loop D q buf start = (Inr (Some raw, drop (start + length raw) buf), q @ [(raw, p)])"
  using try_body_in_range[of D buf start] by (subst parse_buffer_loop.simps) simp

lemma loop_EOF:
  "try_body D buf start = Inl EOFError \<Longrightarrow>
   parse_buffer_loop D q buf start = (Inr (None, buf), q)"
  by (subst parse_buffer_loop.simps) simp

lemma loop_DecodeError:
  "try_body D buf start = Inl (DecodeError e) \<Longrightarrow>
   parse_buffer_loop D q buf start = (Inl e, q)"
  using try_body_in_range[of D buf start] by (subst parse_buffer_loop.simps) simp

lemma loop_cases:
  obtains (Continue) s where "try_body D buf start = Inr (Continue s)"
  | (Found) raw p where "try_body D buf start = Inr (Found raw p)"
  | (EOF) "try_body D buf start = Inl EOFError"
  | (Decode) e where "try_body D buf start = Inl (DecodeError e)"
proof (cases "try_body D buf start")
  case (Inl x)
  then show ?thesis using EOF Decode by (cases x) auto
next
  case (Inr y)
  then show ?thesis using Continue Found by (cases y) auto
qed

lemma loop_Some:
  assumes "parse_buffer_loop D q buf s = (Inr (Some raw, rem), q')"
  shows "\<exists>start p. s \<le> start \<and> try_body D buf start = Inr (Found raw p)
           \<and> rem = drop (start + length raw) buf \<and> q' = q @ [(raw, p)]
           \<and> parse_buffer_loop D q buf start = parse_buffer_loop D q buf s"
  using assms
proof (induction D q buf s rule: parse_buffer_loop.induct)
  case (1 D q buf start)
  show ?case
  proof (cases rule: loop_cases[of D buf start])
    case (Continue s)
    have lt: "start < length buf" "start < s" using try_body_Continue[OF Continue] by auto
    have eq: "parse_buffer_loop D q buf start = parse_buffer_loop D q buf s"
      by (rule loop_Continue[OF Continue])
    with "1.prems" have "parse_buffer_loop D q buf s = (Inr (Some raw, rem), q')" by simp
    from "1.IH"[OF lt(1) Continue refl this] obtain st p where
      "s \<le> st" "try_body D buf st = Inr (Found raw p)" "rem = drop (st + length raw) buf"
      "q' = q @ [(raw, p)]" "parse_buffer_loop D q buf st = parse_buffer_loop D q buf s"
      by blast
    with lt eq show ?thesis by (intro exI[of _ st] exI[of _ p]) auto
  next
    case (Found raw' p)
    with "1.prems" show ?thesis by (auto simp: loop_Found)
  next
    case EOF
    with "1.prems" show ?thesis by (simp add: loop_EOF)
  next
    case (Decode e)
    with "1.prems" show ?thesis by (simp add: loop_DecodeError)
  qed
qed

lemma loop_None:
  assumes "parse_buffer_loop D q buf s = (Inr (None, rem), q')"
  shows "rem = buf \<and> q' = q"
  using assms
proof (induction D q buf s rule: parse_buffer_loop.induct)
  case (1 D q buf start)
  show ?case
  proof (cases rule: loop_cases[of D buf start])
    case (Continue s)
    have lt: "start < length buf" using try_body_Continue[OF Continue] by auto
    from "1.prems" have "parse_buffer_loop D q buf s = (Inr (None, rem), q')"
      by (simp add: loop_Continue[OF Continue])
    from "1.IH"[OF lt Continue refl this] show ?thesis .
  next
    case (Found raw' p)
    with "1.prems" show ?thesis by (auto simp: loop_Found)
  next
    case EOF
    with "1.prems" show ?thesis by (simp add: loop_EOF)
  next
    case (Decode e)
    with "1.prems" show ?thesis by (simp add: loop_DecodeError)
  qed
qed

lemma loop_Inl:
  assumes "parse_buffer_loop D q buf s = (Inl e, q')"
  shows "q' = q \<and> (\<exists>start\<ge>s. try_body D buf start = Inl (DecodeError e))"
  using assms
proof (induction D q buf s rule: parse_buffer_loop.induct)
  case (1 D q buf start)
  show ?case
  proof (cases rule: loop_cases[of D buf start])
    case (Continue s)
    have lt: "start < length buf" "start < s" using try_body_Continue[OF Continue] by auto
    from "1.prems" have "parse_buffer_loop D q buf s = (Inl e, q')"
      by (simp add: loop_Continue[OF Continue])
    from "1.IH"[OF lt(1) Continue refl this] lt(2) show ?thesis
      by (meson le_trans less_imp_le)
  next
    case (Found raw' p)
    with "1.prems" show ?thesis by (auto simp: loop_Found)
  next
    case EOF
    with "1.prems" show ?thesis by (simp add: loop_EOF)
  next
    case (Decode e')
    with "1.prems" show ?thesis by (auto simp: loop_DecodeError)
  qed
qed

lemma loop_append:
  assumes "parse_buffer_loop D q buf s = (r, q')" "r \<noteq> Inr (None, buf)"
  shows "parse_buffer_loop D q (buf @ ext) s
       = (case r of Inl e \<Rightarrow> Inl e | Inr (raw, rem) \<Rightarrow> Inr (raw, rem @ ext), q')"
  using assms
proof (induction D q buf s rule: parse_buffer_loop.induct)
  case (1 D q buf start)
  show ?case
  proof (cases rule: loop_cases[of D buf start])
    case (Continue s)
    have lt: "start < length buf" using try_body_Continue[OF Continue] by auto
    have c': "try_body D (buf @ ext) start = Inr (Continue s)"
      using try_body_append[of D buf start ext] Continue by simp
    from "1.prems" have "parse_buffer_loop D q buf s = (r, q')"
      by (simp add: loop_Continue[OF Continue])
    from "1.IH"[OF lt Continue refl this "1.prems"(2)] show ?thesis
      by (simp add: loop_Continue[OF c'])
  next
    case (Found raw' p)
    have c': "try_body D (buf @ ext) start = Inr (Found raw' p)"
      using try_body_append[of D buf start ext] Found by simp
    have "start + length raw' \<le> length buf"
      using try_body_Found_slice[OF Found] by simp
    then show ?thesis using "1.prems"
      by (auto simp: loop_Found[OF c'] loop_Found[OF Found])
  next
    case EOF
    with "1.prems" show ?thesis by (simp add: loop_EOF)
  next
    case (Decode e')
    have c': "try_body D (buf @ ext) start = Inl (DecodeError e')"
      using try_body_append[of D buf start ext] Decode by simp
    show ?thesis using "1.prems"
      by (auto simp: loop_DecodeError[OF c'] loop_DecodeError[OF Decode])
  qed
qed

lemma slice_nth: "raw = take n (drop start buf) \<Longrightarrow> i < n \<Longrightarrow> start + n \<le> length buf \<Longrightarrow> raw ! i = buf ! (start + i)"
  by simp

lemma slice_split:
  assumes "start + n \<le> length buf"
  shows "buf = take start buf @ take n (drop start buf) @ drop (start + n) buf"
proof -
  have "drop start buf = take n (drop start buf) @ drop n (drop start buf)"
    by (rule append_take_drop_id[symmetric])
  also have "drop n (drop start buf) = drop (start + n) buf" by (simp add: add.commute)
  finally have "drop start buf = take n (drop start buf) @ drop (start + n) buf" .
  then have "take start buf @ drop start buf = take start buf @ take n (drop start buf) @ drop (start + n) buf"
    by simp
  then show ?thesis by simp
qed

text \<open>What an extraction at scan position \<open>start\<close> looks like, per protocol.\<close>

lemma try_body_Found_frame:
  assumes f: "try_body D buf start = Inr (Found raw p)"
  shows "(take 2 raw = UBX_HDR \<and> length raw = 8 + (unat (raw ! 4) + 256 * unat (raw ! 5))
            \<and> ubx_parse D raw = Inr p)
       \<or> (take 2 raw \<in> set NMEA_HDR \<and> 4 \<le> length raw \<and> crlf_end (drop 2 raw) (length raw - 2)
            \<and> (\<forall>j. 1 \<le> j \<and> j < length raw - 2 \<longrightarrow> \<not> crlf_end (drop 2 raw) j)
            \<and> nmea_parse D raw = Inr p)
       \<or> (raw ! 0 = 0xD3 \<and> uint (raw ! 1) AND NOT 3 = 0
            \<and> length raw = 6 + (unat (raw ! 2) OR push_bit 8 (unat (raw ! 1)))
            \<and> rtcm_parse D raw = Inr p)"
proof -
  from try_body_Found_sync[OF f] have s2: "start + 2 \<le> length buf"
    and "buf ! start = 0xB5 \<or> buf ! start = 0x24 \<or> buf ! start = 0xD3" by auto
  then consider "buf ! start = 0xB5" | "buf ! start = 0x24" | "buf ! start = 0xD3" by blast
  then show ?thesis
  proof cases
    case 1
    note u = try_body_Found_ubx[OF f 1]
    have len: "length raw = 8 + ubx_len buf start" using u(1,2) by simp
    have n: "raw ! i = buf ! (start + i)" if "i < 8" for i
      using u(1,2) that by simp
    have "take 2 raw = take 2 (drop start buf)" using u(1) by simp
    then have h: "take 2 raw = UBX_HDR" using hdr_take[OF s2] u(4) by simp
    have "ubx_len buf start = unat (raw ! 4) + 256 * unat (raw ! 5)"
      by (simp add: ubx_len_def n)
    with len h u(3) show ?thesis by simp
  next
    case 2
    from try_body_Found_nmea[OF f 2] obtain n where n: "n \<ge> 1" "raw = take (2 + n) (drop start buf)"
      "start + 2 + n \<le> length buf" "crlf_end (drop (start + 2) buf) n"
      "\<forall>j. 1 \<le> j \<and> j < n \<longrightarrow> \<not> crlf_end (drop (start + 2) buf) j"
      and d: "nmea_parse D raw = Inr p" and hd: "[buf ! start, buf ! (start + 1)] \<in> set NMEA_HDR"
      by blast
    have len: "length raw = 2 + n" using n(2,3) by simp
    have n2: "2 \<le> n" using crlf_end_bounds[OF n(4)] by simp
    have "take 2 raw = take 2 (drop start buf)" unfolding n(2) take_take by (simp add: min_def)
    then have h: "take 2 raw \<in> set NMEA_HDR" using hdr_take[OF s2] hd by simp
    have body: "drop 2 raw = take n (drop (start + 2) buf)"
      unfolding n(2) by (simp add: drop_take add.commute)
    have c: "crlf_end (drop 2 raw) j = crlf_end (drop (start + 2) buf) j" if "j \<le> n" for j
      unfolding body using that by (rule crlf_end_take)
    show ?thesis using h len n2 n(4,5) d c by auto
  next
    case 3
    let ?hdr = "[buf ! start, buf ! (start + 1)]"
    note u = try_body_Found_rtcm[OF f 3]
    have len: "length raw = 6 + rtcm_len buf start ?hdr" using u(1,2) by simp
    have n: "raw ! i = buf ! (start + i)" if "i < 6" for i
      using u(1,2) that by simp
    have "rtcm_len buf start ?hdr = unat (raw ! 2) OR push_bit 8 (unat (raw ! 1))"
      by (simp add: rtcm_len_def n)
    with len u(3,4) 3 show ?thesis by (simp add: n)
  qed
qed

lemma parse_buffer_Some:
  assumes "parse_buffer D q buf = (Inr (Some raw, rem), q')"
  shows "\<exists>start p. try_body D buf start = Inr (Found raw p)
           \<and> start + length raw \<le> length buf \<and> raw = take (length raw) (drop start buf)
           \<and> rem = drop (start + length raw) buf \<and> q' = q @ [(raw, p)]
           \<and> buf = take start buf @ raw @ rem
           \<and> parse_buffer_loop D q buf start = parse_buffer D q buf"
proof -
  from loop_Some[OF assms[unfolded parse_buffer_def]] obtain start p where
    f: "try_body D buf start = Inr (Found raw p)" and r: "rem = drop (start + length raw) buf"
    and q: "q' = q @ [(raw, p)]"
    and l: "parse_buffer_loop D q buf start = parse_buffer_loop D q buf 0"
    by blast
  from try_body_Found_slice[OF f] have s: "start + length raw \<le> length buf"
    "raw = take (length raw) (drop start buf)" by simp_all
  have "buf = take start buf @ take (length raw) (drop start buf) @ drop (start + length raw) buf"
    using s(1) by (rule slice_split)
  then have "buf = take start buf @ raw @ rem" using s(2) r by simp
  with f r q l s show ?thesis unfolding parse_buffer_def by blast
qed

lemma parse_buffer_shorter:
  assumes "parse_buffer D q buf = (Inr (Some raw, rem), q')"
  shows "length rem < length buf"
proof -
  from loop_Some[OF assms[unfolded parse_buffer_def]] obtain start p where
    f: "try_body D buf start = Inr (Found raw p)" and r: "rem = drop (start + length raw) buf"
    by blast
  from try_body_Found_slice[OF f] have "start + length raw \<le> length buf" "4 \<le> length raw"
    by simp_all
  then show ?thesis unfolding r by simp
qed

section \<open>The receive loop of \<^verbatim>\<open>_read_thread\<close>\<close>

text \<open>
  The inner loop \<^verbatim>\<open>while True and self._reading: raw, buf = self.parse_buffer(buf);
  if raw is None: break\<close>, with \<^verbatim>\<open>self._reading\<close> true throughout (no disconnect while
  the loop runs). It returns the buffer it leaves, or the exception that ends it, and the
  queue.
\<close>

function drain :: "('e, 'p) decoders \<Rightarrow> 'p queue \<Rightarrow> bytes \<Rightarrow> ('e + bytes) \<times> 'p queue" where
  "drain D q buf =
     (case parse_buffer D q buf of
        (Inl e, q') \<Rightarrow> (Inl e, q')
      | (Inr (None, buf'), q') \<Rightarrow> (Inr buf', q')
      | (Inr (Some raw, buf'), q') \<Rightarrow> drain D q' buf')"
  by pat_completeness auto
termination
  by (relation "measure (\<lambda>(D, q, buf). length buf)") (auto dest: parse_buffer_shorter[OF sym])

declare drain.simps [simp del]

text \<open>
  The outer loop \<^verbatim>\<open>while data and self._reading: data = self._socket.recv(BUFLEN);
  buf += data; ...\<close> over the list of what the successive \<^verbatim>\<open>recv\<close> calls return. An
  empty \<^verbatim>\<open>data\<close> is still appended and drained, and then ends the loop. The decoders'
  exceptions are not among those \<^verbatim>\<open>_read_thread\<close> catches.
\<close>

fun read_thread ::
  "('e, 'p) decoders \<Rightarrow> bytes list \<Rightarrow> bytes \<Rightarrow> 'p queue \<Rightarrow> ('e + bytes) \<times> 'p queue" where
  "read_thread D [] buf q = (Inr buf, q)"
| "read_thread D (data # recvs) buf q =
     (case drain D q (buf @ data) of
        (Inl e, q') \<Rightarrow> (Inl e, q')
      | (Inr buf', q') \<Rightarrow> if data = [] then (Inr buf', q') else read_thread D recvs buf' q')"

lemma take2_nth: "take 2 raw = [a, b] \<Longrightarrow> raw ! 0 = a \<and> raw ! 1 = b"
proof -
  assume a: "take 2 raw = [a, b]"
  have "take 2 raw ! 0 = raw ! 0" "take 2 raw ! 1 = raw ! 1" by simp_all
  then show ?thesis unfolding a by simp
qed

lemma hdr_disjoint:
  "take 2 raw = UBX_HDR \<Longrightarrow> raw ! 0 = 0xB5 \<and> raw ! 1 = 0x62"
  "take 2 raw \<in> set NMEA_HDR \<Longrightarrow> raw ! 0 = 0x24"
  by (auto simp: UBX_HDR_def NMEA_HDR_def dest: take2_nth)

lemma rtcm_len_bound:
  assumes "uint (h :: byte) AND NOT 3 = 0"
  shows "unat (b :: byte) OR push_bit 8 (unat h) \<le> 1023"
proof -
  have "unat b < 2 ^ LENGTH(8)" by (rule unsigned_less)
  then have b: "unat b < 256" by simp
  have h: "unat h < 4" using assms by (simp only: rtcm_guard_iff)
  have "unat b OR push_bit 8 (unat h) = unat b + 256 * unat h"
    using b by (rule or_push_bit_8)
  with b h show ?thesis by simp
qed

lemma rtcm_guard_drop_bit: "uint (b :: byte) AND NOT 3 = 0 \<longleftrightarrow> drop_bit 2 b = 0"
proof -
  have "drop_bit 2 b = 0 \<longleftrightarrow> unat (drop_bit 2 b) = 0"
    by (simp only: unsigned_eq_0_iff)
  also have "\<dots> \<longleftrightarrow> drop_bit 2 (unat b) = 0"
    by (simp only: unat_drop_bit_eq)
  also have "\<dots> \<longleftrightarrow> unat b < 4"
    unfolding drop_bit_eq_div by (simp add: div_eq_0_iff)
  finally show ?thesis by (simp only: rtcm_guard_iff)
qed

section \<open>Sample decoders and frames\<close>

text \<open>
  Decoders that accept every frame and answer with the protocol they stand for, a UBX
  decoder that rejects every frame, and one well-formed frame of each protocol. They
  instantiate the theorems below at concrete inputs.
\<close>

datatype protocol = UBX | NMEA | RTCM

definition accept_all :: "(string, protocol) decoders" where
  "accept_all = \<lparr>ubx_parse = (\<lambda>raw. Inr UBX), nmea_parse = (\<lambda>raw. Inr NMEA),
                  rtcm_parse = (\<lambda>raw. Inr RTCM)\<rparr>"

definition reject_ubx :: "(string, protocol) decoders" where
  "reject_ubx = accept_all\<lparr>ubx_parse := (\<lambda>raw. Inl ''UBXParseError'')\<rparr>"

definition ubx_example :: bytes where
  "ubx_example = [0xB5, 0x62, 0x01, 0x02, 0x02, 0x00, 0xAA, 0xBB, 0x6A, 0x27]"

definition nmea_example :: bytes where
  "nmea_example = [0x24, 0x47, 0x50, 0x47, 0x47, 0x41, 0x2C, 0x2A, 0x30, 0x30, 0x0D, 0x0A]"

definition rtcm_example :: bytes where
  "rtcm_example = [0xD3, 0x00, 0x02, 0x11, 0x22, 0xC1, 0xC2, 0xC3]"

section \<open>The framing, the decoders and the byte stream\<close>

subsection \<open>The queue is only appended to\<close>

lemma loop_queue:
  "parse_buffer_loop D q buf s
     = (fst (parse_buffer_loop D [] buf s), q @ snd (parse_buffer_loop D [] buf s))"
proof (induction D q buf s rule: parse_buffer_loop.induct)
  case (1 D q buf start)
  show ?case
  proof (cases rule: loop_cases[of D buf start])
    case (Continue s)
    have lt: "start < length buf" using try_body_Continue[OF Continue] by auto
    from "1.IH"[OF lt Continue refl] show ?thesis
      by (simp add: loop_Continue[OF Continue])
  next
    case (Found raw' p)
    then show ?thesis by (simp add: loop_Found)
  next
    case EOF
    then show ?thesis by (simp add: loop_EOF)
  next
    case (Decode e')
    then show ?thesis by (simp add: loop_DecodeError)
  qed
qed

lemma parse_buffer_queue:
  "parse_buffer D q buf = (fst (parse_buffer D [] buf), q @ snd (parse_buffer D [] buf))"
  unfolding parse_buffer_def by (rule loop_queue)

subsection \<open>The decoders do not influence the framing\<close>

text \<open>
  The decoder \<^verbatim>\<open>parse_buffer\<close> hands a frame of protocol \<open>t\<close> to, and the result of a
  parser with the decoder \<open>dec\<close> expressed through the result of the same parser with a
  decoder that accepts everything.
\<close>

definition decoder_of :: "('e, 'p) decoders \<Rightarrow> protocol \<Rightarrow> bytes \<Rightarrow> 'e + 'p" where
  "decoder_of D t = (case t of UBX \<Rightarrow> ubx_parse D | NMEA \<Rightarrow> nmea_parse D | RTCM \<Rightarrow> rtcm_parse D)"

definition redecode :: "(bytes \<Rightarrow> 'e + 'p) \<Rightarrow> string exn + (bytes \<times> protocol) \<Rightarrow> 'e exn + (bytes \<times> 'p)" where
  "redecode dec r = (case r of Inl x \<Rightarrow> Inl EOFError | Inr (raw, t) \<Rightarrow> decode_raw dec raw)"

lemma decode_raw_accept [simp]: "decode_raw (\<lambda>raw. Inr t) raw = Inr (raw, t)"
  by (simp add: decode_raw_def)

lemma parse_ubx_redecode:
  "parse_ubx dec buf start hdr = redecode dec (parse_ubx (\<lambda>raw. Inr t) buf start hdr)"
  by (simp add: parse_ubx_eq redecode_def)

lemma parse_rtcm_redecode:
  "parse_rtcm dec buf start hdr = redecode dec (parse_rtcm (\<lambda>raw. Inr t) buf start hdr)"
  by (simp add: parse_rtcm_eq redecode_def)

lemma parse_nmea_loop_redecode:
  "parse_nmea_loop dec buf start hdr i = redecode dec (parse_nmea_loop (\<lambda>raw. Inr t) buf start hdr i)"
proof (induction "Suc (length buf) - (start + 2 + i)" arbitrary: i rule: less_induct)
  case less
  show ?case
  proof (cases "length buf < start + 2 + i")
    case True
    then show ?thesis
      by (subst parse_nmea_loop_eq, subst (2) parse_nmea_loop_eq) (simp add: redecode_def)
  next
    case False
    show ?thesis
    proof (cases "crlf_end (drop (start + 2) buf) i")
      case True
      with False show ?thesis
        by (subst parse_nmea_loop_eq, subst (2) parse_nmea_loop_eq) (simp add: redecode_def)
    next
      case F2: False
      have "Suc (length buf) - (start + 2 + (i + 1)) < Suc (length buf) - (start + 2 + i)"
        using False by simp
      from less[OF this] F2 False show ?thesis
        by (subst parse_nmea_loop_eq, subst (2) parse_nmea_loop_eq) simp
    qed
  qed
qed

lemma parse_nmea_redecode:
  "parse_nmea dec buf start hdr = redecode dec (parse_nmea (\<lambda>raw. Inr t) buf start hdr)"
  unfolding parse_nmea_def by (rule parse_nmea_loop_redecode)

lemma redecode_EOF: "r = Inl x \<Longrightarrow> redecode dec r = Inl EOFError"
  by (simp add: redecode_def)

lemma redecode_Inr: "r = Inr (raw, t) \<Longrightarrow> redecode dec r = decode_raw dec raw"
  by (simp add: redecode_def)

lemma parse_ubx_tag: "parse_ubx (\<lambda>raw. Inr t) buf start hdr = Inr (raw, t') \<Longrightarrow> t' = t"
  by (auto simp: parse_ubx_eq split: if_splits)

lemma parse_rtcm_tag: "parse_rtcm (\<lambda>raw. Inr t) buf start hdr = Inr (raw, t') \<Longrightarrow> t' = t"
  by (auto simp: parse_rtcm_eq split: if_splits)

lemma parse_nmea_tag: "parse_nmea (\<lambda>raw. Inr t) buf start hdr = Inr (raw, t') \<Longrightarrow> t' = t"
  unfolding parse_nmea_def by (drule parse_nmea_loop_Inr) auto

lemma found_redecode:
  assumes "\<And>raw t'. r = Inr (raw, t') \<Longrightarrow> t' = t"
  shows "found (redecode (decoder_of D t) r) =
      (case found r of
        Inl x \<Rightarrow> Inl EOFError
      | Inr (Continue s) \<Rightarrow> Inr (Continue s)
      | Inr (Found raw t) \<Rightarrow> found (decode_raw (decoder_of D t) raw))"
proof (cases r)
  case (Inl a)
  then show ?thesis by (simp add: redecode_def found_def)
next
  case (Inr b)
  obtain raw t' where b: "b = (raw, t')" by (cases b)
  with assms Inr have "t' = t" by simp
  with Inr b show ?thesis by (simp add: redecode_def found_def)
qed

lemma try_body_accept_all:
  "try_body D buf start =
     (case try_body accept_all buf start of
        Inl x \<Rightarrow> Inl EOFError
      | Inr (Continue s) \<Rightarrow> Inr (Continue s)
      | Inr (Found raw t) \<Rightarrow> found (decode_raw (decoder_of D t) raw))"
proof -
  let ?hdr = "[buf ! start, buf ! (start + 1)]"
  let ?c = "\<lambda>r :: string exn + protocol step. (case r of
        Inl x \<Rightarrow> Inl EOFError
      | Inr (Continue s) \<Rightarrow> Inr (Continue s)
      | Inr (Found raw t) \<Rightarrow> found (decode_raw (decoder_of D t) raw))"
  have u: "found (parse_ubx (ubx_parse D) buf start ?hdr) =
      ?c (found (parse_ubx (ubx_parse accept_all) buf start ?hdr))"
    using found_redecode[of "parse_ubx (\<lambda>raw. Inr UBX) buf start ?hdr" UBX D, OF parse_ubx_tag]
    by (simp add: parse_ubx_redecode[of "ubx_parse D" _ _ _ UBX] accept_all_def decoder_of_def)
  have n: "found (parse_nmea (nmea_parse D) buf start ?hdr) =
      ?c (found (parse_nmea (nmea_parse accept_all) buf start ?hdr))"
    using found_redecode[of "parse_nmea (\<lambda>raw. Inr NMEA) buf start ?hdr" NMEA D, OF parse_nmea_tag]
    by (simp add: parse_nmea_redecode[of "nmea_parse D" _ _ _ NMEA] accept_all_def decoder_of_def)
  have r: "found (parse_rtcm (rtcm_parse D) buf start ?hdr) =
      ?c (found (parse_rtcm (rtcm_parse accept_all) buf start ?hdr))"
    using found_redecode[of "parse_rtcm (\<lambda>raw. Inr RTCM) buf start ?hdr" RTCM D, OF parse_rtcm_tag]
    by (simp add: parse_rtcm_redecode[of "rtcm_parse D" _ _ _ RTCM] accept_all_def decoder_of_def)
  show ?thesis
    unfolding try_body_eq[of D] try_body_eq[of accept_all] u n r
    by (simp split: if_splits)
qed

lemma try_body_accept_all_no_error: "try_body accept_all buf s \<noteq> Inl (DecodeError e)"
proof
  assume a: "try_body accept_all buf s = Inl (DecodeError e)"
  have "try_body accept_all buf s = Inl EOFError"
    by (subst try_body_accept_all) (simp add: a)
  with a show False by simp
qed

lemma loop_decoders:
  "(\<forall>r. fst (parse_buffer_loop accept_all q0 buf s) = Inr (None, r) \<longrightarrow>
        parse_buffer_loop D q buf s = (Inr (None, buf), q))
   \<and> (\<forall>raw rem q0'. parse_buffer_loop accept_all q0 buf s = (Inr (Some raw, rem), q0') \<longrightarrow>
        (\<exists>t. q0' = q0 @ [(raw, t)] \<and>
             parse_buffer_loop D q buf s =
               (case decoder_of D t raw of
                  Inl e \<Rightarrow> (Inl e, q)
                | Inr p \<Rightarrow> (Inr (Some raw, rem), q @ [(raw, p)]))))"
proof (induction "length buf - s" arbitrary: s rule: less_induct)
  case less
  show ?case
  proof (cases rule: loop_cases[of accept_all buf s])
    case (Continue s')
    have lt: "s < s'" "s' \<le> length buf" using try_body_Continue[OF Continue] by auto
    then have m: "length buf - s' < length buf - s" by simp
    have c: "try_body D buf s = Inr (Continue s')"
      by (subst try_body_accept_all) (simp add: Continue)
    show ?thesis
      using less[OF m] by (simp only: loop_Continue[OF Continue] loop_Continue[OF c])
  next
    case (Found raw t)
    have c: "try_body D buf s = found (decode_raw (decoder_of D t) raw)"
      by (subst try_body_accept_all) (simp add: Found)
    show ?thesis
    proof (cases "decoder_of D t raw")
      case (Inl e)
      then have "try_body D buf s = Inl (DecodeError e)"
        unfolding c by (simp add: decode_raw_def found_def)
      then show ?thesis using Inl
        by (auto simp: loop_Found[OF Found] loop_DecodeError)
    next
      case (Inr p)
      then have "try_body D buf s = Inr (Found raw p)"
        unfolding c by (simp add: decode_raw_def found_def)
      then show ?thesis using Inr
        by (auto simp: loop_Found[OF Found] loop_Found)
    qed
  next
    case EOF
    have c: "try_body D buf s = Inl EOFError"
      by (subst try_body_accept_all) (simp add: EOF)
    show ?thesis by (simp add: loop_EOF[OF EOF] loop_EOF[OF c])
  next
    case (Decode e)
    then show ?thesis using try_body_accept_all_no_error by blast
  qed
qed

lemma parse_buffer_no_frame:
  assumes "fst (parse_buffer accept_all q0 buf) = Inr (None, r)"
  shows "parse_buffer D q buf = (Inr (None, buf), q)"
  using assms loop_decoders[of q0 buf 0 D q] unfolding parse_buffer_def by blast

lemma parse_buffer_decoder:
  assumes "parse_buffer accept_all q0 buf = (Inr (Some raw, rem), q0')"
  shows "\<exists>t. q0' = q0 @ [(raw, t)] \<and>
             parse_buffer D q buf =
               (case decoder_of D t raw of
                  Inl e \<Rightarrow> (Inl e, q)
                | Inr p \<Rightarrow> (Inr (Some raw, rem), q @ [(raw, p)]))"
  using assms loop_decoders[of q0 buf 0 D q] unfolding parse_buffer_def by blast

lemma drain_Inl: "parse_buffer D q buf = (Inl e, q') \<Longrightarrow> drain D q buf = (Inl e, q')"
  by (subst drain.simps) simp

lemma drain_None: "parse_buffer D q buf = (Inr (None, buf'), q') \<Longrightarrow> drain D q buf = (Inr buf', q')"
  by (subst drain.simps) simp

lemma drain_Some: "parse_buffer D q buf = (Inr (Some raw, buf'), q') \<Longrightarrow> drain D q buf = drain D q' buf'"
  by (subst drain.simps) simp

subsection \<open>Frames\<close>

text \<open>
  A byte string is a frame for the decoders \<open>D\<close> when \<^verbatim>\<open>parse_buffer\<close>, given exactly
  these bytes, extracts all of them as one message.
\<close>

definition is_frame :: "('e, 'p) decoders \<Rightarrow> bytes \<Rightarrow> bool" where
  "is_frame D f = (fst (parse_buffer D [] f) = Inr (Some f, []))"

text \<open>What \<^verbatim>\<open>parse_buffer\<close> puts on an empty queue for the buffer \<open>f\<close>.\<close>

definition emitted :: "('e, 'p) decoders \<Rightarrow> bytes \<Rightarrow> 'p queue" where
  "emitted D f = snd (parse_buffer D [] f)"

lemma is_frame_parse:
  assumes "is_frame D f"
  shows "parse_buffer D q f = (Inr (Some f, []), q @ emitted D f)"
  using assms by (subst parse_buffer_queue) (simp add: is_frame_def emitted_def)

lemma is_frame_emitted:
  assumes "is_frame D f"
  shows "\<exists>p. emitted D f = [(f, p)] \<and> try_body D f 0 = Inr (Found f p)"
proof -
  from is_frame_parse[OF assms, of "[]"] have pb: "parse_buffer D [] f = (Inr (Some f, []), emitted D f)"
    by simp
  from parse_buffer_Some[OF pb] obtain start p where
    f: "try_body D f start = Inr (Found f p)" "start + length f \<le> length f" "emitted D f = [] @ [(f, p)]"
    by blast
  then have "start = 0" by simp
  with f show ?thesis by auto
qed

lemma is_frame_nonempty: "is_frame D f \<Longrightarrow> f \<noteq> []"
  using is_frame_emitted[of D f] try_body_Found_slice[of D f 0 f] by auto

lemma parse_buffer_append:
  assumes "parse_buffer D q buf = (Inr (Some raw, rem), q')"
  shows "parse_buffer D q (buf @ ext) = (Inr (Some raw, rem @ ext), q')"
  using loop_append[OF assms[unfolded parse_buffer_def], of ext]
  by (simp add: parse_buffer_def)

lemma parse_buffer_append_Inl:
  assumes "parse_buffer D q buf = (Inl e, q')"
  shows "parse_buffer D q (buf @ ext) = (Inl e, q')"
  using loop_append[OF assms[unfolded parse_buffer_def], of ext]
  by (simp add: parse_buffer_def)

lemma is_frame_head:
  assumes "is_frame D f"
  shows "parse_buffer D q (f @ rest) = (Inr (Some f, rest), q @ emitted D f)"
  using parse_buffer_append[OF is_frame_parse[OF assms]] by simp

lemma is_frame_prefix:
  assumes "is_frame D f" and "f = g @ ext" and "ext \<noteq> []"
  shows "parse_buffer D q g = (Inr (None, g), q)"
proof -
  obtain r q' where pb: "parse_buffer D q g = (r, q')" by (cases "parse_buffer D q g")
  have full: "parse_buffer D q (g @ ext) = (Inr (Some f, []), q @ emitted D f)"
    using is_frame_parse[OF assms(1)] assms(2) by simp
  show ?thesis
  proof (cases r)
    case (Inl e)
    from parse_buffer_append_Inl[OF pb[unfolded Inl], of ext] full show ?thesis by simp
  next
    case (Inr x)
    obtain raw rem where x: "x = (raw, rem)" by (cases x)
    show ?thesis
    proof (cases raw)
      case None
      from loop_None[OF pb[unfolded Inr x None parse_buffer_def]] pb Inr x None
      show ?thesis by simp
    next
      case (Some a)
      from parse_buffer_append[OF pb[unfolded Inr x Some], of ext] full assms(3)
      show ?thesis by simp
    qed
  qed
qed

lemma drain_incomplete:
  "parse_buffer D q g = (Inr (None, g), q) \<Longrightarrow> drain D q g = (Inr g, q)"
  by (rule drain_None)

lemma parse_buffer_Nil: "parse_buffer D q [] = (Inr (None, []), q)"
  by (simp add: parse_buffer_def loop_end)

subsection \<open>The emitted messages within the byte stream\<close>

text \<open>
  \<open>interleave gaps raws\<close> is the byte stream \<open>gap\<^sub>1 raw\<^sub>1 gap\<^sub>2 raw\<^sub>2 \<dots>\<close>: each message
  preceded by the bytes skipped before it.
\<close>

fun interleave :: "bytes list \<Rightarrow> bytes list \<Rightarrow> bytes" where
  "interleave (g # gaps) (r # raws) = g @ r @ interleave gaps raws"
| "interleave gaps raws = []"

lemma interleave_append:
  "length gaps = length raws \<Longrightarrow>
   interleave (gaps @ gaps') (raws @ raws') = interleave gaps raws @ interleave gaps' raws'"
  by (induction gaps raws rule: list_induct2) auto

subsection \<open>Draining a sequence of frames\<close>

lemma drain_frames:
  assumes "\<forall>f\<in>set fs. is_frame D f" and "\<And>q. parse_buffer D q g = (Inr (None, g), q)"
  shows "drain D q (concat fs @ g) = (Inr g, q @ concat (map (emitted D) fs))"
  using assms(1)
proof (induction fs arbitrary: q)
  case Nil
  show ?case using drain_None[OF assms(2)] by simp
next
  case (Cons f fs)
  then have f: "is_frame D f" and fs: "\<forall>f\<in>set fs. is_frame D f" by simp_all
  have "drain D q (f @ (concat fs @ g)) = drain D (q @ emitted D f) (concat fs @ g)"
    by (rule drain_Some[OF is_frame_head[OF f]])
  also have "\<dots> = (Inr g, (q @ emitted D f) @ concat (map (emitted D) fs))"
    by (rule Cons.IH[OF fs])
  finally show ?case by simp
qed

lemma split_at_frame:
  assumes "\<forall>f\<in>set fs. f \<noteq> []" and "b @ r = concat fs"
  shows "\<exists>k g. b = concat (take k fs) @ g \<and> g @ r = concat (drop k fs)
           \<and> ((drop k fs = [] \<and> g = []) \<or> (\<exists>f fs' ext. drop k fs = f # fs' \<and> f = g @ ext \<and> ext \<noteq> []))"
  using assms
proof (induction fs arbitrary: b)
  case Nil
  then show ?case by (intro exI[of _ 0] exI[of _ "[]"]) simp
next
  case (Cons f fs)
  from Cons.prems(2) have "b @ r = f @ concat fs" by simp
  then obtain us where us: "(b = f @ us \<and> us @ r = concat fs) \<or> (b @ us = f \<and> r = us @ concat fs)"
    by (auto simp: append_eq_append_conv2)
  show ?case
  proof (cases "b = f @ us \<and> us @ r = concat fs")
    case True
    from Cons.prems(1) have "\<forall>f\<in>set fs. f \<noteq> []" by simp
    from Cons.IH[OF this, of us] True obtain k g where
      kg: "us = concat (take k fs) @ g" "g @ r = concat (drop k fs)"
        "(drop k fs = [] \<and> g = []) \<or> (\<exists>f fs' ext. drop k fs = f # fs' \<and> f = g @ ext \<and> ext \<noteq> [])"
      by blast
    show ?thesis using True kg
      by (intro exI[of _ "Suc k"] exI[of _ g]) simp
  next
    case False
    with us have u: "b @ us = f" "r = us @ concat fs" by blast+
    with False have "us \<noteq> []" by auto
    with u show ?thesis
      by (intro exI[of _ 0] exI[of _ b]) auto
  qed
qed

lemma waits_cases:
  assumes "(fs = [] \<and> g = []) \<or> (\<exists>f fs' ext. fs = f # fs' \<and> f = g @ ext \<and> ext \<noteq> [])"
    and "\<forall>f\<in>set fs. is_frame D f"
  shows "parse_buffer D q g = (Inr (None, g), q)"
proof (cases "fs = [] \<and> g = []")
  case True
  then show ?thesis by (simp add: parse_buffer_Nil)
next
  case False
  with assms(1) obtain f fs' ext where e: "fs = f # fs'" "f = g @ ext" "ext \<noteq> []" by blast
  with assms(2) have "is_frame D f" by simp
  from is_frame_prefix[OF this e(2,3)] show ?thesis .
qed

lemma read_thread_frames:
  assumes "\<forall>f\<in>set fs. is_frame D f" and "[] \<notin> set chunks" and "buf @ concat chunks = concat fs"
    and "(fs = [] \<and> buf = []) \<or> (\<exists>f fs' ext. fs = f # fs' \<and> f = buf @ ext \<and> ext \<noteq> [])"
  shows "read_thread D chunks buf q = (Inr [], q @ concat (map (emitted D) fs))"
  using assms
proof (induction chunks arbitrary: buf q fs)
  case Nil
  have "fs = [] \<and> buf = []"
  proof (rule ccontr)
    assume "\<not> (fs = [] \<and> buf = [])"
    with Nil.prems(4) obtain f fs' ext where e: "fs = f # fs'" "f = buf @ ext" "ext \<noteq> []" by blast
    with Nil.prems(3) have "buf = buf @ ext @ concat fs'" by simp
    then have "ext @ concat fs' = []" by simp
    with e(3) show False by simp
  qed
  then show ?case by simp
next
  case (Cons c cs)
  from Cons.prems(2) have c: "c \<noteq> []" and cs: "[] \<notin> set cs" by auto
  have ne: "\<forall>f\<in>set fs. f \<noteq> []" using Cons.prems(1) is_frame_nonempty by blast
  from Cons.prems(3) have "(buf @ c) @ concat cs = concat fs" by simp
  from split_at_frame[OF ne this] obtain k g where
    kg: "buf @ c = concat (take k fs) @ g" "g @ concat cs = concat (drop k fs)"
      "(drop k fs = [] \<and> g = []) \<or> (\<exists>f fs' ext. drop k fs = f # fs' \<and> f = g @ ext \<and> ext \<noteq> [])"
    by blast
  have tk: "\<forall>f\<in>set (take k fs). is_frame D f" using Cons.prems(1) by (meson in_set_takeD)
  have dk: "\<forall>f\<in>set (drop k fs). is_frame D f" using Cons.prems(1) by (meson in_set_dropD)
  have w: "parse_buffer D q g = (Inr (None, g), q)" for q
    by (rule waits_cases[OF kg(3) dk])
  have d: "drain D q (buf @ c) = (Inr g, q @ concat (map (emitted D) (take k fs)))"
    unfolding kg(1) by (rule drain_frames[OF tk w])
  have "read_thread D (c # cs) buf q = read_thread D cs g (q @ concat (map (emitted D) (take k fs)))"
    using d c by simp
  also have "\<dots> = (Inr [], (q @ concat (map (emitted D) (take k fs))) @ concat (map (emitted D) (drop k fs)))"
    by (rule Cons.IH[OF dk cs kg(2,3)])
  finally have rt: "read_thread D (c # cs) buf q
      = (Inr [], q @ concat (map (emitted D) (take k fs)) @ concat (map (emitted D) (drop k fs)))"
    by simp
  have "concat (map (emitted D) (take k fs)) @ concat (map (emitted D) (drop k fs))
      = concat (map (emitted D) (take k fs @ drop k fs))"
    by (simp only: map_append concat_append)
  then show ?case unfolding rt by simp
qed

lemma read_thread_single:
  assumes "\<forall>f\<in>set fs. is_frame D f"
  shows "read_thread D [concat fs] [] q = (Inr [], q @ concat (map (emitted D) fs))"
proof -
  have "drain D q (concat fs @ []) = (Inr [], q @ concat (map (emitted D) fs))"
    by (rule drain_frames[OF assms parse_buffer_Nil])
  then show ?thesis by simp
qed

lemma concat_singletons: "concat (map (\<lambda>b. [b]) xs) = xs"
  by (induction xs) auto

subsection \<open>Bytes in front of the scan position\<close>

lemma ubx_len_shift: "ubx_len (pre @ buf) (length pre + s) = ubx_len buf s"
  by (simp add: ubx_len_def nth_append)

lemma rtcm_len_shift: "rtcm_len (pre @ buf) (length pre + s) hdr = rtcm_len buf s hdr"
  by (simp add: rtcm_len_def nth_append)

lemma drop_shift: "drop (length pre + s + n) (pre @ buf) = drop (s + n) buf"
  by simp

lemma parse_ubx_shift:
  "parse_ubx dec (pre @ buf) (length pre + s) hdr = parse_ubx dec buf s hdr"
  unfolding parse_ubx_eq ubx_len_shift drop_shift by simp

lemma parse_rtcm_shift:
  "parse_rtcm dec (pre @ buf) (length pre + s) hdr = parse_rtcm dec buf s hdr"
  unfolding parse_rtcm_eq rtcm_len_shift drop_shift by simp

lemma parse_nmea_loop_shift:
  "parse_nmea_loop dec (pre @ buf) (length pre + s) hdr i = parse_nmea_loop dec buf s hdr i"
proof (induction "Suc (length buf) - (s + 2 + i)" arbitrary: i rule: less_induct)
  case less
  have d: "drop (length pre + s + 2) (pre @ buf) = drop (s + 2) buf" by (rule drop_shift)
  have l: "length (pre @ buf) < length pre + s + 2 + i \<longleftrightarrow> length buf < s + 2 + i" by auto
  show ?case
  proof (cases "length buf < s + 2 + i \<or> crlf_end (drop (s + 2) buf) i")
    case True
    then show ?thesis
      by (subst parse_nmea_loop_eq, subst (2) parse_nmea_loop_eq) (auto simp only: d l split: if_splits)
  next
    case False
    then have "Suc (length buf) - (s + 2 + (i + 1)) < Suc (length buf) - (s + 2 + i)" by arith
    from less[OF this] False show ?thesis
      by (subst parse_nmea_loop_eq, subst (2) parse_nmea_loop_eq) (simp only: d l if_False)
  qed
qed

lemma parse_nmea_shift:
  "parse_nmea dec (pre @ buf) (length pre + s) hdr = parse_nmea dec buf s hdr"
  unfolding parse_nmea_def by (rule parse_nmea_loop_shift)

lemma try_body_shift:
  "try_body D (pre @ buf) (length pre + s) =
     (case try_body D buf s of
        Inr (Continue s') \<Rightarrow> Inr (Continue (length pre + s'))
      | r \<Rightarrow> r)"
proof -
  have n: "(pre @ buf) ! (length pre + s) = buf ! s" "(pre @ buf) ! (length pre + s + 1) = buf ! (s + 1)"
    by (simp_all add: nth_append)
  have l: "length (pre @ buf) < length pre + s + 1 \<longleftrightarrow> length buf < s + 1"
    "length (pre @ buf) < length pre + s + 2 \<longleftrightarrow> length buf < s + 2" by auto
  have f: "(case found r of Inr (Continue s') \<Rightarrow> Inr (Continue (length pre + s')) | r \<Rightarrow> r) = found r"
    for r :: "'a exn + (bytes \<times> 'b)"
    by (simp add: found_def split: sum.splits prod.splits)
  show ?thesis
    unfolding try_body_eq[of D "pre @ buf"] try_body_eq[of D buf] n l
      parse_ubx_shift parse_nmea_shift parse_rtcm_shift
    by (simp add: f)
qed

lemma loop_shift:
  "parse_buffer_loop D q (pre @ buf) (length pre + s) =
     (case parse_buffer_loop D q buf s of
        (Inr (None, b), q') \<Rightarrow> (Inr (None, pre @ buf), q')
      | r \<Rightarrow> r)"
proof (induction D q buf s rule: parse_buffer_loop.induct)
  case (1 D q buf start)
  show ?case
  proof (cases rule: loop_cases[of D buf start])
    case (Continue s)
    have lt: "start < length buf" using try_body_Continue[OF Continue] by auto
    have c: "try_body D (pre @ buf) (length pre + start) = Inr (Continue (length pre + s))"
      by (simp add: try_body_shift Continue)
    from "1.IH"[OF lt Continue refl] show ?thesis
      by (simp only: loop_Continue[OF Continue] loop_Continue[OF c])
  next
    case (Found raw p)
    have c: "try_body D (pre @ buf) (length pre + start) = Inr (Found raw p)"
      by (simp add: try_body_shift Found)
    show ?thesis by (simp add: loop_Found[OF Found] loop_Found[OF c])
  next
    case EOF
    have c: "try_body D (pre @ buf) (length pre + start) = Inl EOFError"
      by (simp add: try_body_shift EOF)
    show ?thesis by (simp add: loop_EOF[OF EOF] loop_EOF[OF c])
  next
    case (Decode e)
    have c: "try_body D (pre @ buf) (length pre + start) = Inl (DecodeError e)"
      by (simp add: try_body_shift Decode)
    show ?thesis by (simp add: loop_DecodeError[OF Decode] loop_DecodeError[OF c])
  qed
qed

lemma loop_skip_noise:
  assumes "\<forall>b\<in>set pre. \<not> sync1 b" and "s \<le> length pre"
  shows "parse_buffer_loop D q (pre @ buf) s = parse_buffer_loop D q (pre @ buf) (length pre)"
  using assms(2)
proof (induction "length pre - s" arbitrary: s)
  case 0
  then show ?case by simp
next
  case (Suc n)
  then have lt: "s < length pre" by simp
  then have "\<not> sync1 ((pre @ buf) ! s)" using assms(1) by (simp add: nth_append)
  then have c: "try_body D (pre @ buf) s = Inr (Continue (s + 1))"
    using lt by (simp add: try_body_eq)
  have "parse_buffer_loop D q (pre @ buf) (s + 1) = parse_buffer_loop D q (pre @ buf) (length pre)"
    using Suc lt by (intro Suc.hyps(1)) simp_all
  then show ?case by (simp only: loop_Continue[OF c])
qed

lemma parse_buffer_noise:
  assumes "\<forall>b\<in>set pre. \<not> sync1 b"
  shows "parse_buffer D q (pre @ buf) =
     (case parse_buffer D q buf of
        (Inr (None, b), q') \<Rightarrow> (Inr (None, pre @ buf), q')
      | r \<Rightarrow> r)"
proof -
  have "parse_buffer D q (pre @ buf) = parse_buffer_loop D q (pre @ buf) (length pre + 0)"
    unfolding parse_buffer_def using loop_skip_noise[OF assms, of 0 D q buf] by simp
  then show ?thesis unfolding loop_shift parse_buffer_def .
qed

lemma noise_then_frame:
  assumes "\<forall>b\<in>set pre. \<not> sync1 b" and "is_frame D f"
  shows "parse_buffer D q (pre @ f @ rest) = (Inr (Some f, rest), q @ emitted D f)"
  by (simp add: parse_buffer_noise[OF assms(1)] is_frame_head[OF assms(2)])

lemma noise_only:
  assumes "\<forall>b\<in>set pre. \<not> sync1 b"
  shows "parse_buffer D q pre = (Inr (None, pre), q)"
  using parse_buffer_noise[OF assms, of D q "[]"] by (simp add: parse_buffer_Nil)

lemma drain_noisy:
  assumes "length ns = length fs" and "\<forall>f\<in>set fs. is_frame D f"
    and "\<forall>n\<in>set ns. \<forall>b\<in>set n. \<not> sync1 b" and "\<forall>b\<in>set tail. \<not> sync1 b"
  shows "drain D q (interleave ns fs @ tail) = (Inr tail, q @ concat (map (emitted D) fs))"
  using assms(1,2,3)
proof (induction ns fs arbitrary: q rule: list_induct2)
  case Nil
  show ?case using drain_None[OF noise_only[OF assms(4)]] by simp
next
  case (Cons n ns f fs)
  then have f: "is_frame D f" and n: "\<forall>b\<in>set n. \<not> sync1 b" by simp_all
  have "drain D q (n @ f @ (interleave ns fs @ tail)) = drain D (q @ emitted D f) (interleave ns fs @ tail)"
    by (rule drain_Some[OF noise_then_frame[OF n f]])
  also have "\<dots> = (Inr tail, (q @ emitted D f) @ concat (map (emitted D) fs))"
    using Cons.prems by (intro Cons.IH) simp_all
  finally show ?case by simp
qed

lemma emitted_frames:
  assumes "\<forall>f\<in>set fs. is_frame D f"
  shows "map fst (concat (map (emitted D) fs)) = fs"
  using assms
proof (induction fs)
  case Nil
  show ?case by simp
next
  case (Cons f fs)
  then have "is_frame D f" by simp
  from is_frame_emitted[OF this] obtain p where "emitted D f = [(f, p)]" by blast
  with Cons show ?case by simp
qed

subsection \<open>Recognising a frame at the buffer head\<close>

lemma is_frame_tryI:
  assumes "try_body D f 0 = Inr (Found f p)"
  shows "is_frame D f" and "emitted D f = [(f, p)]"
  using loop_Found[OF assms, of "[]"] by (simp_all add: is_frame_def emitted_def parse_buffer_def)

lemma parse_nmea_loop_first:
  assumes "start + 2 + n \<le> length buf" and "i \<le> n" and "crlf_end (drop (start + 2) buf) n"
    and "\<forall>j. i \<le> j \<and> j < n \<longrightarrow> \<not> crlf_end (drop (start + 2) buf) j"
  shows "parse_nmea_loop dec buf start hdr i = decode_raw dec (hdr @ take n (drop (start + 2) buf))"
  using assms(2,4)
proof (induction "n - i" arbitrary: i)
  case 0
  then have "i = n" by simp
  then show ?case using assms(1,3) by (subst parse_nmea_loop_eq) simp
next
  case (Suc k)
  then have lt: "i < n" by simp
  then have nc: "\<not> crlf_end (drop (start + 2) buf) i" using Suc.prems(2) by simp
  have le: "\<not> length buf < start + 2 + i" using assms(1) lt by simp
  have "parse_nmea_loop dec buf start hdr (i + 1) = decode_raw dec (hdr @ take n (drop (start + 2) buf))"
    using Suc lt by (intro Suc.hyps(1)) simp_all
  then show ?case using nc le by (subst parse_nmea_loop_eq) simp
qed

lemma crlf_end_iff:
  "crlf_end xs j \<longleftrightarrow> 2 \<le> j \<and> j \<le> length xs \<and> xs ! (j - 2) = 0x0D \<and> xs ! (j - 1) = 0x0A"
proof (cases "2 \<le> j \<and> j \<le> length xs")
  case False
  then show ?thesis using crlf_end_bounds[of xs j] by blast
next
  case True
  then have l: "length (drop (j - 2) (take j xs)) = 2" by simp
  have n0: "drop (j - 2) (take j xs) ! 0 = xs ! (j - 2)" using True by simp
  have j1: "j - 2 + 1 = j - 1" "j - 1 < j" using True by arith+
  have "drop (j - 2) (take j xs) ! 1 = take j xs ! (j - 2 + 1)"
    using True by (intro nth_drop) simp
  then have n1: "drop (j - 2) (take j xs) ! 1 = xs ! (j - 1)"
    unfolding j1(1) using j1(2) by simp
  have "drop (j - 2) (take j xs) = [0x0D, 0x0A] \<longleftrightarrow> xs ! (j - 2) = 0x0D \<and> xs ! (j - 1) = 0x0A"
    using l n0 n1 by (auto simp: list_eq_iff_nth_eq less_Suc_eq eval_nat_numeral)
  then show ?thesis using True by (simp add: crlf_end_def)
qed

lemma crlf_end_terminated:
  assumes "0x0D \<notin> set pre"
  shows "crlf_end (pre @ [0x0D, 0x0A]) j \<longleftrightarrow> j = length pre + 2"
proof (cases "j = length pre + 2")
  case True
  then show ?thesis by (simp add: crlf_end_iff nth_append)
next
  case False
  have "\<not> crlf_end (pre @ [0x0D, 0x0A]) j"
  proof
    assume c: "crlf_end (pre @ [0x0D, 0x0A]) j"
    then have b: "2 \<le> j" "j \<le> length pre + 2" and x: "(pre @ [0x0D, 0x0A]) ! (j - 2) = 0x0D"
      by (simp_all add: crlf_end_iff)
    with False have "j - 2 < length pre" by simp
    then have "pre ! (j - 2) = 0x0D" and "pre ! (j - 2) \<in> set pre"
      using x by (simp add: nth_append, intro nth_mem)
    with assms show False by metis
  qed
  with False show ?thesis by simp
qed


subsection \<open>The scenario of the specification\<close>

text \<open>
  The UBX frame \<open>B5 62 01 02 02 00 AA BB\<close> followed by two checksum bytes, and the
  sentence \<open>$GPGGA,\<close> \<open>rest\<close> \<open>CR LF\<close>, where \<open>rest\<close> stands for the fields and the
  \<open>*hh\<close> checksum.
\<close>

definition scenario_ubx :: "byte \<Rightarrow> byte \<Rightarrow> bytes" where
  "scenario_ubx ck_a ck_b = [0xB5, 0x62, 0x01, 0x02, 0x02, 0x00, 0xAA, 0xBB, ck_a, ck_b]"

definition scenario_nmea :: "bytes \<Rightarrow> bytes" where
  "scenario_nmea rest = [0x24, 0x47, 0x50, 0x47, 0x47, 0x41, 0x2C] @ rest @ [0x0D, 0x0A]"

lemma scenario_ubx_frame:
  assumes "ubx_parse D (scenario_ubx ck_a ck_b) = Inr p"
  shows "try_body D (scenario_ubx ck_a ck_b) 0 = Inr (Found (scenario_ubx ck_a ck_b) p)"
proof -
  have l: "ubx_len (scenario_ubx ck_a ck_b) 0 = 2"
    by (simp add: ubx_len_def scenario_ubx_def)
  have t: "[0xB5, 0x62] @ take (6 + 2) (drop (0 + 2) (scenario_ubx ck_a ck_b)) = scenario_ubx ck_a ck_b"
    by (simp add: scenario_ubx_def)
  have "parse_ubx (ubx_parse D) (scenario_ubx ck_a ck_b) 0 [0xB5, 0x62]
      = decode_raw (ubx_parse D) (scenario_ubx ck_a ck_b)"
    unfolding parse_ubx_eq l t by (simp add: scenario_ubx_def)
  then have "parse_ubx (ubx_parse D) (scenario_ubx ck_a ck_b) 0 [0xB5, 0x62]
      = Inr (scenario_ubx ck_a ck_b, p)"
    using assms by (simp add: decode_raw_def)
  then show ?thesis
    by (subst try_body_eq) (simp add: scenario_ubx_def sync1_def UBX_HDR_def)
qed

lemma scenario_nmea_frame:
  assumes "nmea_parse D (scenario_nmea rest) = Inr p" and "0x0D \<notin> set rest"
  shows "try_body D (scenario_nmea rest) 0 = Inr (Found (scenario_nmea rest) p)"
proof -
  let ?s = "scenario_nmea rest"
  let ?pre = "[0x50, 0x47, 0x47, 0x41, 0x2C] @ rest"
  have d: "drop (0 + 2) ?s = ?pre @ [0x0D, 0x0A]" by (simp add: scenario_nmea_def)
  have np: "0x0D \<notin> set ?pre" using assms(2) by simp
  have len: "length ?s = length ?pre + 2 + 2" by (simp add: scenario_nmea_def)
  have c: "crlf_end (drop (0 + 2) ?s) j \<longleftrightarrow> j = length ?pre + 2" for j
    unfolding d by (rule crlf_end_terminated[OF np])
  have "parse_nmea_loop (nmea_parse D) ?s 0 [0x24, 0x47] 1
      = decode_raw (nmea_parse D) ([0x24, 0x47] @ take (length ?pre + 2) (drop (0 + 2) ?s))"
    by (rule parse_nmea_loop_first) (simp_all only: c len, simp_all)
  also have "[0x24, 0x47] @ take (length ?pre + 2) (drop (0 + 2) ?s) = ?s"
    unfolding d by (simp add: scenario_nmea_def)
  finally have "parse_nmea (nmea_parse D) ?s 0 [0x24, 0x47] = Inr (?s, p)"
    using assms(1) by (simp add: parse_nmea_def decode_raw_def)
  moreover have "?s ! 0 = 0x24" "?s ! (0 + 1) = 0x47" "\<not> length ?s < 0 + 1" "\<not> length ?s < 0 + 2"
    by (simp_all add: scenario_nmea_def)
  ultimately show ?thesis
    by (subst try_body_eq) (simp add: sync1_def UBX_HDR_def NMEA_HDR_def)
qed

subsection \<open>The path of the scan cursor\<close>

text \<open>
  \<open>reaches D buf s t\<close>: from scan position \<open>s\<close> the \<^verbatim>\<open>while\<close> loop of \<^verbatim>\<open>parse_buffer\<close>
  arrives at scan position \<open>t\<close> through \<^verbatim>\<open>continue\<close> statements only.
\<close>

inductive reaches :: "('e, 'p) decoders \<Rightarrow> bytes \<Rightarrow> nat \<Rightarrow> nat \<Rightarrow> bool" where
  here: "reaches D buf s s"
| step: "try_body D buf s = Inr (Continue s') \<Longrightarrow> reaches D buf s' t \<Longrightarrow> reaches D buf s t"


lemma reaches_trans: "reaches D buf s t \<Longrightarrow> reaches D buf t u \<Longrightarrow> reaches D buf s u"
  by (induction rule: reaches.induct) (auto intro: reaches.step)








lemma reaches_unique:
  assumes "reaches D buf s t" and "reaches D buf s t'"
    and "\<forall>u. try_body D buf t \<noteq> Inr (Continue u)" and "\<forall>u. try_body D buf t' \<noteq> Inr (Continue u)"
  shows "t = t'"
  using assms
proof (induction rule: reaches.induct)
  case (here D buf s)
  from here.prems(1) show ?case
  proof (cases rule: reaches.cases)
    case here
    then show ?thesis by simp
  next
    case (step s')
    with here.prems(2) show ?thesis by simp
  qed
next
  case (step D buf s s' t)
  from step.prems(1) show ?case
  proof (cases rule: reaches.cases)
    case here
    with step.hyps(1) step.prems(3) show ?thesis by simp
  next
    case (step s'')
    with step.hyps(1) have "s'' = s'" by simp
    with step(2) step.IH step.prems(2,3) local.step(2) show ?thesis by simp
  qed
qed

subsection \<open>The frames of a byte stream, in stream order\<close>












section \<open>The claims\<close>

subsection \<open>Exact consumption\<close>

text \<open>
  C5. Whenever \<^verbatim>\<open>parse_buffer\<close> extracts a frame, the frame is the slice of the buffer
  at the scan position and the remaining buffer starts right behind it, so the frame
  takes exactly \<open>length raw\<close> bytes of the buffer. For a UBX frame the payload length
  \<open>L\<close> is the unsigned little-endian value of bytes 3 and 4 of the 4-byte sub-header
  (\<open>raw ! 4\<close> and \<open>raw ! 5\<close>), it is what \<^verbatim>\<open>int.from_bytes(byten[2:4], "little")\<close>
  computes, and the frame has exactly \<open>2 + 4 + L + 2\<close> bytes. For an NMEA frame the bytes
  after the 2-byte header end with the first CR LF found by the byte-by-byte scan: the
  frame has 2 bytes plus the bytes scanned up to and including that terminator.
\<close>

theorem frame_consumption_ubx_nmea:
  assumes "parse_buffer D q buf = (Inr (Some raw, rem), q')"
  shows "(\<exists>start. start + length raw \<le> length buf \<and> raw = take (length raw) (drop start buf)
            \<and> rem = drop (start + length raw) buf)
       \<and> (take 2 raw = UBX_HDR \<longrightarrow>
            length raw = 2 + 4 + (unat (raw ! 4) + 256 * unat (raw ! 5)) + 2
            \<and> from_bytes_little (take 2 (drop 2 (take 4 (drop 2 raw)))) = unat (raw ! 4) + 256 * unat (raw ! 5))
       \<and> (take 2 raw \<in> set NMEA_HDR \<longrightarrow>
            crlf_end (drop 2 raw) (length raw - 2)
            \<and> (\<forall>j. 1 \<le> j \<and> j < length raw - 2 \<longrightarrow> \<not> crlf_end (drop 2 raw) j))"
proof -
  from parse_buffer_Some[OF assms] obtain start p where
    f: "try_body D buf start = Inr (Found raw p)"
    and s: "start + length raw \<le> length buf" "raw = take (length raw) (drop start buf)"
       "rem = drop (start + length raw) buf"
    by blast
  have len4: "4 \<le> length raw" using try_body_Found_slice[OF f] by simp
  note fr = try_body_Found_frame[OF f]
  have ubx: "length raw = 2 + 4 + (unat (raw ! 4) + 256 * unat (raw ! 5)) + 2" if "take 2 raw = UBX_HDR"
    using fr hdr_disjoint(1)[OF that] by (auto dest: hdr_disjoint)
  have ubx2: "from_bytes_little (take 2 (drop 2 (take 4 (drop 2 raw)))) = unat (raw ! 4) + 256 * unat (raw ! 5)"
    if "take 2 raw = UBX_HDR"
  proof -
    have l: "8 \<le> length raw" using ubx[OF that] by simp
    have "take 2 (drop 2 (take 4 (drop 2 raw))) = [raw ! 4, raw ! 5]"
      using l by (auto simp: list_eq_iff_nth_eq less_Suc_eq eval_nat_numeral)
    then show ?thesis by simp
  qed
  have nmea: "crlf_end (drop 2 raw) (length raw - 2)
            \<and> (\<forall>j. 1 \<le> j \<and> j < length raw - 2 \<longrightarrow> \<not> crlf_end (drop 2 raw) j)" if "take 2 raw \<in> set NMEA_HDR"
    using fr hdr_disjoint(2)[OF that] by (auto dest: hdr_disjoint)
  from s ubx ubx2 nmea show ?thesis by blast
qed

theorem frame_consumption_ubx_nmea_witness:
  "parse_buffer accept_all [] ([0x00, 0x01] @ ubx_example @ nmea_example)
     = (Inr (Some ubx_example, nmea_example), [(ubx_example, UBX)])
   \<and> parse_buffer accept_all [] nmea_example = (Inr (Some nmea_example, []), [(nmea_example, NMEA)])
   \<and> length ubx_example = 2 + 4 + 2 + 2
   \<and> crlf_end (drop 2 nmea_example) (length nmea_example - 2)"
proof -
  have h1: "parse_buffer accept_all [] ([0x00, 0x01] @ ubx_example @ nmea_example)
     = (Inr (Some ubx_example, nmea_example), [(ubx_example, UBX)])" by code_simp
  have h2: "parse_buffer accept_all [] nmea_example = (Inr (Some nmea_example, []), [(nmea_example, NMEA)])"
    by code_simp
  have u: "take 2 ubx_example = UBX_HDR" by (simp add: ubx_example_def UBX_HDR_def)
  have n: "take 2 nmea_example \<in> set NMEA_HDR" by (simp add: nmea_example_def NMEA_HDR_def)
  from frame_consumption_ubx_nmea[OF h1] u
  have "length ubx_example = 2 + 4 + (unat (ubx_example ! 4) + 256 * unat (ubx_example ! 5)) + 2"
    by blast
  then have a: "length ubx_example = 2 + 4 + 2 + 2" by (simp add: ubx_example_def)
  from frame_consumption_ubx_nmea[OF h2] n
  have b: "crlf_end (drop 2 nmea_example) (length nmea_example - 2)" by blast
  from h1 h2 a b show ?thesis by blast
qed

subsection \<open>The RTCM3 length\<close>

text \<open>
  C6. Every extracted RTCM3 frame (first byte \<open>0xD3\<close>) passed the classification guard,
  the second byte has none of its upper six bits set; its payload length is
  \<open>L = byte3 | (sync_byte2 << 8)\<close>, a value of at most 1023; the frame has exactly
  \<open>2 + 1 + L + 3\<close> bytes, it is the slice of the buffer at the scan position, and the
  remaining buffer starts right behind it.
\<close>

theorem rtcm_length_and_consumption:
  assumes "parse_buffer D q buf = (Inr (Some raw, rem), q')" and "raw ! 0 = 0xD3"
  shows "uint (raw ! 1) AND NOT 3 = 0
       \<and> drop_bit 2 (raw ! 1) = 0
       \<and> unat (raw ! 2) OR push_bit 8 (unat (raw ! 1)) \<le> 1023
       \<and> length raw = 2 + 1 + (unat (raw ! 2) OR push_bit 8 (unat (raw ! 1))) + 3
       \<and> (\<exists>start. start + length raw \<le> length buf \<and> raw = take (length raw) (drop start buf)
              \<and> rem = drop (start + length raw) buf)"
proof -
  from parse_buffer_Some[OF assms(1)] obtain start p where
    f: "try_body D buf start = Inr (Found raw p)"
    and s: "start + length raw \<le> length buf" "raw = take (length raw) (drop start buf)"
       "rem = drop (start + length raw) buf"
    by blast
  from try_body_Found_frame[OF f] assms(2)
  have g: "uint (raw ! 1) AND NOT 3 = 0"
    and l: "length raw = 6 + (unat (raw ! 2) OR push_bit 8 (unat (raw ! 1)))"
    by (auto dest: hdr_disjoint)
  have "unat (raw ! 1) < 4" using g by (simp only: rtcm_guard_iff)
  then have "drop_bit 2 (unat (raw ! 1)) = 0"
    by (simp add: drop_bit_eq_div)
  then have "unat (drop_bit 2 (raw ! 1)) = 0"
    by (simp only: unat_drop_bit_eq)
  then have d: "drop_bit 2 (raw ! 1) = 0" by (simp only: unsigned_eq_0_iff)
  from g l d s rtcm_len_bound[OF g, of "raw ! 2"] show ?thesis by auto
qed

theorem rtcm_length_and_consumption_witness:
  "parse_buffer accept_all [] ([0x07] @ rtcm_example @ [0x08])
     = (Inr (Some rtcm_example, [0x08]), [(rtcm_example, RTCM)])
   \<and> rtcm_example ! 0 = 0xD3
   \<and> length rtcm_example = 2 + 1 + 2 + 3"
proof -
  have h: "parse_buffer accept_all [] ([0x07] @ rtcm_example @ [0x08])
     = (Inr (Some rtcm_example, [0x08]), [(rtcm_example, RTCM)])" by code_simp
  have z: "rtcm_example ! 0 = 0xD3" by (simp add: rtcm_example_def)
  from rtcm_length_and_consumption[OF h z]
  have "length rtcm_example = 2 + 1 + (unat (rtcm_example ! 2) OR push_bit 8 (unat (rtcm_example ! 1))) + 3"
    by blast
  then have "length rtcm_example = 2 + 1 + 2 + 3" by (simp add: rtcm_example_def)
  with h z show ?thesis by blast
qed

subsection \<open>Invariant of an extraction\<close>

text \<open>
  C10. When \<^verbatim>\<open>parse_buffer\<close> extracts a frame, \<^verbatim>\<open>raw_data\<close> is not empty and begins
  with a recognised header (\<open>0xB5 0x62\<close>, one of the NMEA headers, or \<open>0xD3\<close> followed by
  a byte whose upper six bits are zero); there is a scan position \<open>start\<close> at which the
  frame was found, \<^verbatim>\<open>raw_data\<close> is the slice of the buffer there, the returned buffer is
  the suffix of the input from \<open>start + len(raw_data)\<close>, and the queue has gained this one
  pair and nothing else: the \<open>start\<close> bytes scanned over are dropped and never enqueued.
\<close>

theorem extraction_invariant:
  assumes "parse_buffer D q buf = (Inr (Some raw, rem), q')"
  shows "raw \<noteq> []
       \<and> (take 2 raw = UBX_HDR \<or> take 2 raw \<in> set NMEA_HDR
            \<or> (raw ! 0 = 0xD3 \<and> uint (raw ! 1) AND NOT 3 = 0))
       \<and> (\<exists>start p. try_body D buf start = Inr (Found raw p)
              \<and> parse_buffer_loop D q buf start = parse_buffer D q buf
              \<and> start + length raw \<le> length buf
              \<and> raw = take (length raw) (drop start buf)
              \<and> rem = drop (start + length raw) buf
              \<and> buf = take start buf @ raw @ rem
              \<and> q' = q @ [(raw, p)])"
proof -
  from parse_buffer_Some[OF assms] obtain start p where
    f: "try_body D buf start = Inr (Found raw p)"
    and s: "start + length raw \<le> length buf" "raw = take (length raw) (drop start buf)"
       "rem = drop (start + length raw) buf" "q' = q @ [(raw, p)]" "buf = take start buf @ raw @ rem"
       "parse_buffer_loop D q buf start = parse_buffer D q buf"
    by blast
  have ne: "raw \<noteq> []" using try_body_Found_slice[OF f] by auto
  from try_body_Found_frame[OF f]
  have h: "take 2 raw = UBX_HDR \<or> take 2 raw \<in> set NMEA_HDR
            \<or> (raw ! 0 = 0xD3 \<and> uint (raw ! 1) AND NOT 3 = 0)"
    by blast
  from ne h f s show ?thesis by blast
qed

theorem extraction_invariant_witness:
  "parse_buffer accept_all [] ([0x00, 0x01] @ ubx_example @ nmea_example)
     = (Inr (Some ubx_example, nmea_example), [] @ [(ubx_example, UBX)])
   \<and> ubx_example \<noteq> []
   \<and> take 2 ubx_example = UBX_HDR"
proof -
  have h: "parse_buffer accept_all [] ([0x00, 0x01] @ ubx_example @ nmea_example)
     = (Inr (Some ubx_example, nmea_example), [] @ [(ubx_example, UBX)])" by code_simp
  from extraction_invariant[OF h] have "ubx_example \<noteq> []" by blast
  moreover have "take 2 ubx_example = UBX_HDR" by (simp add: ubx_example_def UBX_HDR_def)
  ultimately show ?thesis using h by blast
qed

subsection \<open>One scanning step\<close>

text \<open>
  C7. At a scan position inside the buffer: a byte that is none of the first sync bytes
  \<open>0x24\<close>, \<open>0xB5\<close>, \<open>0xD3\<close> moves the cursor on by exactly 1. When the byte is one of
  them and a second byte is buffered, the two-byte candidate is classified in this order:
  the UBX header, then the set of NMEA headers, then RTCM3 (first byte \<open>0xD3\<close> and the
  upper six bits of the second byte zero); when none applies the cursor moves on by
  exactly 2.
\<close>

theorem scan_cursor_steps:
  assumes "start < length buf"
  shows "(buf ! start \<notin> {0x24, 0xB5, 0xD3} \<longrightarrow>
            try_body D buf start = Inr (Continue (start + 1))
          \<and> parse_buffer_loop D q buf start = parse_buffer_loop D q buf (start + 1))
       \<and> (buf ! start \<in> {0x24, 0xB5, 0xD3} \<and> start + 1 < length buf \<longrightarrow>
            try_body D buf start =
              (if [buf ! start, buf ! (start + 1)] = UBX_HDR then
                 found (parse_ubx (ubx_parse D) buf start [buf ! start, buf ! (start + 1)])
               else if [buf ! start, buf ! (start + 1)] \<in> set NMEA_HDR then
                 found (parse_nmea (nmea_parse D) buf start [buf ! start, buf ! (start + 1)])
               else if buf ! start = 0xD3 \<and> drop_bit 2 (buf ! (start + 1)) = 0 then
                 found (parse_rtcm (rtcm_parse D) buf start [buf ! start, buf ! (start + 1)])
               else Inr (Continue (start + 2))))
       \<and> (buf ! start \<in> {0x24, 0xB5, 0xD3} \<and> start + 1 < length buf
            \<and> [buf ! start, buf ! (start + 1)] \<noteq> UBX_HDR
            \<and> [buf ! start, buf ! (start + 1)] \<notin> set NMEA_HDR
            \<and> \<not> (buf ! start = 0xD3 \<and> drop_bit 2 (buf ! (start + 1)) = 0) \<longrightarrow>
            try_body D buf start = Inr (Continue (start + 2))
          \<and> parse_buffer_loop D q buf start = parse_buffer_loop D q buf (start + 2))"
proof (intro conjI impI)
  assume n: "buf ! start \<notin> {0x24, 0xB5, 0xD3}"
  then show c: "try_body D buf start = Inr (Continue (start + 1))"
    using assms by (simp add: try_body_eq sync1_def)
  show "parse_buffer_loop D q buf start = parse_buffer_loop D q buf (start + 1)"
    by (rule loop_Continue[OF c])
next
  assume "buf ! start \<in> {0x24, 0xB5, 0xD3} \<and> start + 1 < length buf"
  then show "try_body D buf start =
              (if [buf ! start, buf ! (start + 1)] = UBX_HDR then
                 found (parse_ubx (ubx_parse D) buf start [buf ! start, buf ! (start + 1)])
               else if [buf ! start, buf ! (start + 1)] \<in> set NMEA_HDR then
                 found (parse_nmea (nmea_parse D) buf start [buf ! start, buf ! (start + 1)])
               else if buf ! start = 0xD3 \<and> drop_bit 2 (buf ! (start + 1)) = 0 then
                 found (parse_rtcm (rtcm_parse D) buf start [buf ! start, buf ! (start + 1)])
               else Inr (Continue (start + 2)))"
    unfolding rtcm_guard_drop_bit[symmetric]
    by (subst try_body_eq) (auto simp: sync1_def)
next
  assume a: "buf ! start \<in> {0x24, 0xB5, 0xD3} \<and> start + 1 < length buf
            \<and> [buf ! start, buf ! (start + 1)] \<noteq> UBX_HDR
            \<and> [buf ! start, buf ! (start + 1)] \<notin> set NMEA_HDR
            \<and> \<not> (buf ! start = 0xD3 \<and> drop_bit 2 (buf ! (start + 1)) = 0)"
  then show c: "try_body D buf start = Inr (Continue (start + 2))"
    unfolding rtcm_guard_drop_bit[symmetric]
    by (subst try_body_eq) (auto simp: sync1_def)
  show "parse_buffer_loop D q buf start = parse_buffer_loop D q buf (start + 2)"
    by (rule loop_Continue[OF c])
qed

theorem scan_cursor_steps_witness:
  "(0::nat) < length [0x00 :: byte, 0xB5, 0x07, 0x24]
   \<and> [0x00 :: byte, 0xB5, 0x07, 0x24] ! 0 \<notin> {0x24, 0xB5, 0xD3}
   \<and> try_body accept_all [0x00, 0xB5, 0x07, 0x24] 0 = Inr (Continue 1)
   \<and> try_body accept_all [0x00, 0xB5, 0x07, 0x24] 1 = Inr (Continue 3)"
proof -
  have l0: "(0::nat) < length [0x00 :: byte, 0xB5, 0x07, 0x24]" by simp
  have l1: "(1::nat) < length [0x00 :: byte, 0xB5, 0x07, 0x24]" by simp
  have n0: "[0x00 :: byte, 0xB5, 0x07, 0x24] ! 0 \<notin> {0x24, 0xB5, 0xD3}" by simp
  from scan_cursor_steps[OF l0, of accept_all "[]"] n0
  have a: "try_body accept_all [0x00, 0xB5, 0x07, 0x24] 0 = Inr (Continue (0 + 1))" by blast
  have "[0x00 :: byte, 0xB5, 0x07, 0x24] ! 1 \<in> {0x24, 0xB5, 0xD3} \<and> 1 + 1 < length [0x00 :: byte, 0xB5, 0x07, 0x24]
            \<and> [[0x00 :: byte, 0xB5, 0x07, 0x24] ! 1, [0x00 :: byte, 0xB5, 0x07, 0x24] ! (1 + 1)] \<noteq> UBX_HDR
            \<and> [[0x00 :: byte, 0xB5, 0x07, 0x24] ! 1, [0x00 :: byte, 0xB5, 0x07, 0x24] ! (1 + 1)] \<notin> set NMEA_HDR
            \<and> \<not> ([0x00 :: byte, 0xB5, 0x07, 0x24] ! 1 = 0xD3 \<and> drop_bit 2 ([0x00 :: byte, 0xB5, 0x07, 0x24] ! (1 + 1)) = 0)"
    by (simp add: UBX_HDR_def NMEA_HDR_def)
  with scan_cursor_steps[OF l1, of accept_all "[]"]
  have b: "try_body accept_all [0x00, 0xB5, 0x07, 0x24] 1 = Inr (Continue (1 + 2))" by blast
  from l0 n0 a b show ?thesis by simp
qed

subsection \<open>A decoder that rejects a frame\<close>

text \<open>
  C1, as the code has it. Let the framing recognise a frame in the buffer: with decoders
  that accept everything, \<^verbatim>\<open>parse_buffer\<close> extracts \<open>raw\<close> for protocol \<open>t\<close> and leaves
  \<open>rem\<close>. If the decoder of protocol \<open>t\<close> rejects \<open>raw\<close> with exception \<open>e\<close>, then \<open>e\<close>
  leaves \<^verbatim>\<open>parse_buffer\<close> (its \<^verbatim>\<open>try\<close> only catches \<^verbatim>\<open>EOFError\<close>), nothing is put on the
  queue, the drain loop and the receive loop of \<^verbatim>\<open>_read_thread\<close> end with \<open>e\<close>, and the
  later \<^verbatim>\<open>recv\<close> results are never read. If the decoder accepts \<open>raw\<close> with result \<open>p\<close>,
  exactly the pair \<open>(raw, p)\<close> is put on the queue and \<open>rem\<close>, the bytes after the frame,
  is returned for the next iteration.
\<close>

theorem decoder_rejection_propagates:
  assumes "parse_buffer accept_all [] (buf @ data) = (Inr (Some raw, rem), [(raw, t)])"
  shows "(decoder_of D t raw = Inl e \<longrightarrow>
            parse_buffer D q (buf @ data) = (Inl e, q)
          \<and> drain D q (buf @ data) = (Inl e, q)
          \<and> read_thread D (data # recvs) buf q = (Inl e, q))
       \<and> (decoder_of D t raw = Inr p \<longrightarrow>
            parse_buffer D q (buf @ data) = (Inr (Some raw, rem), q @ [(raw, p)])
          \<and> drain D q (buf @ data) = drain D (q @ [(raw, p)]) rem)"
proof -
  from parse_buffer_decoder[OF assms, of D q] have
    pb: "parse_buffer D q (buf @ data) =
               (case decoder_of D t raw of
                  Inl e \<Rightarrow> (Inl e, q)
                | Inr p \<Rightarrow> (Inr (Some raw, rem), q @ [(raw, p)]))"
    by simp
  show ?thesis
  proof (intro conjI impI)
    assume r: "decoder_of D t raw = Inl e"
    then show a: "parse_buffer D q (buf @ data) = (Inl e, q)" using pb by simp
    then show b: "drain D q (buf @ data) = (Inl e, q)" by (rule drain_Inl)
    then show "read_thread D (data # recvs) buf q = (Inl e, q)" by simp
  next
    assume r: "decoder_of D t raw = Inr p"
    then show a: "parse_buffer D q (buf @ data) = (Inr (Some raw, rem), q @ [(raw, p)])"
      using pb by simp
    then show "drain D q (buf @ data) = drain D (q @ [(raw, p)]) rem" by (rule drain_Some)
  qed
qed

theorem decoder_rejection_propagates_witness:
  "parse_buffer accept_all [] ([] @ (ubx_example @ nmea_example))
     = (Inr (Some ubx_example, nmea_example), [(ubx_example, UBX)])
   \<and> decoder_of reject_ubx UBX ubx_example = Inl ''UBXParseError''
   \<and> read_thread reject_ubx [ubx_example @ nmea_example, rtcm_example] [] [] = (Inl ''UBXParseError'', [])
   \<and> decoder_of accept_all UBX ubx_example = Inr UBX
   \<and> parse_buffer accept_all [(rtcm_example, RTCM)] ([] @ (ubx_example @ nmea_example))
     = (Inr (Some ubx_example, nmea_example), [(rtcm_example, RTCM)] @ [(ubx_example, UBX)])"
proof -
  have h: "parse_buffer accept_all [] ([] @ (ubx_example @ nmea_example))
     = (Inr (Some ubx_example, nmea_example), [(ubx_example, UBX)])" by code_simp
  have r: "decoder_of reject_ubx UBX ubx_example = Inl ''UBXParseError''"
    by (simp add: decoder_of_def reject_ubx_def)
  have a: "decoder_of accept_all UBX ubx_example = Inr UBX"
    by (simp add: decoder_of_def accept_all_def)
  from decoder_rejection_propagates[OF h, of reject_ubx "''UBXParseError''" "[]" "[rtcm_example]"] r
  have 1: "read_thread reject_ubx [ubx_example @ nmea_example, rtcm_example] [] [] = (Inl ''UBXParseError'', [])"
    by blast
  from decoder_rejection_propagates[OF h, of accept_all _ "[(rtcm_example, RTCM)]" _ UBX] a
  have 2: "parse_buffer accept_all [(rtcm_example, RTCM)] ([] @ (ubx_example @ nmea_example))
     = (Inr (Some ubx_example, nmea_example), [(rtcm_example, RTCM)] @ [(ubx_example, UBX)])"
    by blast
  from h r a 1 2 show ?thesis by blast
qed

text \<open>
  The claim as the specification has it fails: here the framer recognises the UBX frame
  at the head of the buffer, the UBX decoder rejects it, and instead of one decode-error
  item on the queue the exception leaves \<^verbatim>\<open>parse_buffer\<close> and ends the receive loop; the
  NMEA sentence behind the frame and the next \<^verbatim>\<open>recv\<close> result are never processed.
\<close>

theorem decode_failure_escapes_counterexample:
  "parse_buffer accept_all [] (ubx_example @ nmea_example)
     = (Inr (Some ubx_example, nmea_example), [(ubx_example, UBX)])
   \<and> ubx_parse reject_ubx ubx_example = Inl ''UBXParseError''
   \<and> parse_buffer reject_ubx [] (ubx_example @ nmea_example) = (Inl ''UBXParseError'', [])
   \<and> read_thread reject_ubx [ubx_example @ nmea_example, rtcm_example] [] []
        = (Inl ''UBXParseError'', [])"
  by code_simp

subsection \<open>A buffer without a complete frame\<close>

text \<open>
  C8. A buffer in which the framing finds no complete frame (\<^verbatim>\<open>parse_buffer\<close> with
  decoders that accept everything returns no message) makes \<^verbatim>\<open>parse_buffer\<close>, with any
  decoders and any queue, return \<^verbatim>\<open>(None, buf)\<close>: nothing is put on the queue, no
  exception leaves it, the buffer is returned as it was, and the drain loop stops with
  that buffer. In particular every proper prefix \<open>g\<close> of a frame \<open>f = g @ ext\<close>, such as
  all but its last byte, is returned unchanged with nothing emitted, and once the missing
  bytes \<open>ext\<close> are appended the drain loop emits exactly the one frame and leaves an empty
  buffer.
\<close>

theorem incomplete_frame_waits:
  "(fst (parse_buffer accept_all [] buf) = Inr (None, buf) \<longrightarrow>
      parse_buffer D q buf = (Inr (None, buf), q) \<and> drain D q buf = (Inr buf, q))
   \<and> (is_frame D f \<and> f = g @ ext \<and> ext \<noteq> [] \<longrightarrow>
      parse_buffer D q g = (Inr (None, g), q) \<and> drain D q g = (Inr g, q)
      \<and> (\<exists>p. drain D q (g @ ext) = (Inr [], q @ [(f, p)])))
   \<and> (is_frame D f \<longrightarrow>
      parse_buffer D q (butlast f) = (Inr (None, butlast f), q)
      \<and> (\<exists>p. drain D q (butlast f @ [last f]) = (Inr [], q @ [(f, p)])))"
proof (intro conjI impI)
  assume a: "fst (parse_buffer accept_all [] buf) = Inr (None, buf)"
  show 1: "parse_buffer D q buf = (Inr (None, buf), q)"
    by (rule parse_buffer_no_frame[OF a])
  show "drain D q buf = (Inr buf, q)" by (rule drain_None[OF 1])
next
  assume "is_frame D f \<and> f = g @ ext \<and> ext \<noteq> []"
  then have a: "is_frame D f" and fe: "f = g @ ext" and ne: "ext \<noteq> []" by blast+
  show 1: "parse_buffer D q g = (Inr (None, g), q)"
    by (rule is_frame_prefix[OF a fe ne])
  show "drain D q g = (Inr g, q)" by (rule drain_None[OF 1])
  from is_frame_emitted[OF a] obtain p where p: "emitted D f = [(f, p)]" by blast
  have "drain D q f = drain D (q @ emitted D f) []"
    by (rule drain_Some[OF is_frame_parse[OF a]])
  also have "\<dots> = (Inr [], q @ emitted D f)"
    by (intro drain_None parse_buffer_Nil)
  finally have "drain D q f = (Inr [], q @ [(f, p)])" using p by simp
  then show "\<exists>p. drain D q (g @ ext) = (Inr [], q @ [(f, p)])"
    unfolding fe by blast
next
  assume a: "is_frame D f"
  then have ne: "f \<noteq> []" by (rule is_frame_nonempty)
  then have sp: "f = butlast f @ [last f]" by simp
  show "parse_buffer D q (butlast f) = (Inr (None, butlast f), q)"
    using is_frame_prefix[OF a sp] by simp
  from is_frame_emitted[OF a] obtain p where p: "emitted D f = [(f, p)]" by blast
  have "drain D q f = drain D (q @ emitted D f) []"
    by (rule drain_Some[OF is_frame_parse[OF a]])
  also have "\<dots> = (Inr [], q @ emitted D f)"
    by (intro drain_None parse_buffer_Nil)
  finally have "drain D q f = (Inr [], q @ [(f, p)])" using p by simp
  then show "\<exists>p. drain D q (butlast f @ [last f]) = (Inr [], q @ [(f, p)])"
    using ne by auto
qed

theorem incomplete_frame_waits_witness:
  "fst (parse_buffer accept_all [] (butlast ubx_example)) = Inr (None, butlast ubx_example)
   \<and> is_frame accept_all ubx_example
   \<and> parse_buffer reject_ubx [(nmea_example, NMEA)] (butlast ubx_example)
       = (Inr (None, butlast ubx_example), [(nmea_example, NMEA)])
   \<and> parse_buffer accept_all [(nmea_example, NMEA)] (butlast ubx_example)
       = (Inr (None, butlast ubx_example), [(nmea_example, NMEA)])"
proof -
  have h1: "fst (parse_buffer accept_all [] (butlast ubx_example)) = Inr (None, butlast ubx_example)"
    by code_simp
  have h2: "is_frame accept_all ubx_example" by code_simp
  note t = incomplete_frame_waits[of "butlast ubx_example" _ "[(nmea_example, NMEA)]" ubx_example "butlast ubx_example" "[last ubx_example]"]
  from t[of reject_ubx] h1 have 1: "parse_buffer reject_ubx [(nmea_example, NMEA)] (butlast ubx_example)
       = (Inr (None, butlast ubx_example), [(nmea_example, NMEA)])" by blast
  from t[of accept_all] h2 have 2: "parse_buffer accept_all [(nmea_example, NMEA)] (butlast ubx_example)
       = (Inr (None, butlast ubx_example), [(nmea_example, NMEA)])" by blast
  from h1 h2 1 2 show ?thesis by blast
qed

subsection \<open>Order of emission\<close>




subsection \<open>Chunk invariance\<close>

text \<open>
  C4. Let \<open>fs\<close> be frames (each one, given alone, is extracted whole by \<^verbatim>\<open>parse_buffer\<close>
  and accepted by its decoder), and let the non-empty chunks \<open>chunks\<close> be any way of
  cutting the byte stream \<open>concat fs\<close> into successive \<^verbatim>\<open>recv\<close> results. Then the receive
  loop run on the chunks ends with the same queue and the same (empty) buffer as the
  receive loop run on the whole stream as one chunk: the queue has gained, in order, the
  pair each frame yields alone. This holds in particular for the stream cut into single
  bytes.
\<close>

theorem chunk_invariance:
  assumes "\<forall>f\<in>set fs. is_frame D f" and "[] \<notin> set chunks" and "concat chunks = concat fs"
  shows "read_thread D chunks [] q = read_thread D [concat fs] [] q
       \<and> read_thread D chunks [] q = (Inr [], q @ concat (map (emitted D) fs))
       \<and> read_thread D (map (\<lambda>b. [b]) (concat fs)) [] q = read_thread D [concat fs] [] q"
proof -
  have ne: "\<forall>f\<in>set fs. f \<noteq> []" using assms(1) is_frame_nonempty by blast
  have start: "(fs = [] \<and> ([] :: bytes) = []) \<or> (\<exists>f fs' ext. fs = f # fs' \<and> f = [] @ ext \<and> ext \<noteq> [])"
    using ne by (cases fs) auto
  have whole: "read_thread D [concat fs] [] q = (Inr [], q @ concat (map (emitted D) fs))"
    by (rule read_thread_single[OF assms(1)])
  have cut: "read_thread D cs [] q = (Inr [], q @ concat (map (emitted D) fs))"
    if "[] \<notin> set cs" "concat cs = concat fs" for cs
    using read_thread_frames[OF assms(1) that(1) _ start] that(2) by simp
  have "[] \<notin> set (map (\<lambda>b. [b]) (concat fs))" by auto
  from cut[OF this] have bytes: "read_thread D (map (\<lambda>b. [b]) (concat fs)) [] q
      = (Inr [], q @ concat (map (emitted D) fs))"
    by (simp add: concat_singletons)
  from cut[OF assms(2,3)] whole bytes show ?thesis by simp
qed

theorem chunk_invariance_witness:
  "is_frame accept_all ubx_example \<and> is_frame accept_all nmea_example
   \<and> is_frame accept_all rtcm_example
   \<and> [] \<notin> set [take 3 ubx_example, drop 3 ubx_example @ take 5 nmea_example,
                 drop 5 nmea_example @ rtcm_example]
   \<and> concat [take 3 ubx_example, drop 3 ubx_example @ take 5 nmea_example,
                 drop 5 nmea_example @ rtcm_example]
       = concat [ubx_example, nmea_example, rtcm_example]
   \<and> read_thread accept_all [take 3 ubx_example, drop 3 ubx_example @ take 5 nmea_example,
                 drop 5 nmea_example @ rtcm_example] [] []
       = read_thread accept_all [concat [ubx_example, nmea_example, rtcm_example]] [] []"
proof -
  let ?fs = "[ubx_example, nmea_example, rtcm_example]"
  let ?chunks = "[take 3 ubx_example, drop 3 ubx_example @ take 5 nmea_example,
                 drop 5 nmea_example @ rtcm_example]"
  have u: "is_frame accept_all ubx_example" by code_simp
  have n: "is_frame accept_all nmea_example" by code_simp
  have r: "is_frame accept_all rtcm_example" by code_simp
  have h1: "\<forall>f\<in>set ?fs. is_frame accept_all f" using u n r by simp
  have h2: "[] \<notin> set ?chunks"
    by (simp add: ubx_example_def nmea_example_def rtcm_example_def)
  have h3: "concat ?chunks = concat ?fs" by simp
  from chunk_invariance[OF h1 h2 h3, of "[]"]
  have "read_thread accept_all ?chunks [] [] = read_thread accept_all [concat ?fs] [] []"
    by blast
  with u n r h2 h3 show ?thesis by blast
qed

subsection \<open>Noise between frames\<close>

text \<open>
  C3. Let \<open>fs\<close> be frames (each one, given alone, is extracted whole by \<^verbatim>\<open>parse_buffer\<close>
  and accepted by its decoder). Put noise in front of each frame and behind the last one,
  where a noise byte is any byte that is not a first sync byte (\<open>0x24\<close>, \<open>0xB5\<close>,
  \<open>0xD3\<close>). Draining the noisy buffer puts on the queue what draining the noise-free
  buffer \<open>concat fs\<close> puts there: one pair per frame, in order, whose raw data are exactly
  the frames, so no noise byte is part of any emitted raw data. The noise behind the last
  frame stays in the buffer.
\<close>

theorem noise_between_frames:
  assumes "\<forall>f\<in>set fs. is_frame D f" and "length ns = length fs"
    and "\<forall>n\<in>set (tail # ns). \<forall>b\<in>set n. b \<notin> {0x24, 0xB5, 0xD3}"
  shows "snd (drain D q (interleave ns fs @ tail)) = snd (drain D q (concat fs))
       \<and> drain D q (interleave ns fs @ tail) = (Inr tail, q @ concat (map (emitted D) fs))
       \<and> drain D q (concat fs) = (Inr [], q @ concat (map (emitted D) fs))
       \<and> map fst (concat (map (emitted D) fs)) = fs"
proof -
  from assms(3) have n: "\<forall>n\<in>set ns. \<forall>b\<in>set n. \<not> sync1 b" and t: "\<forall>b\<in>set tail. \<not> sync1 b"
    by (auto simp: sync1_def)
  have noisy: "drain D q (interleave ns fs @ tail) = (Inr tail, q @ concat (map (emitted D) fs))"
    by (rule drain_noisy[OF assms(2,1) n t])
  have "drain D q (concat fs @ []) = (Inr [], q @ concat (map (emitted D) fs))"
    by (rule drain_frames[OF assms(1) parse_buffer_Nil])
  then have clean: "drain D q (concat fs) = (Inr [], q @ concat (map (emitted D) fs))" by simp
  from noisy clean emitted_frames[OF assms(1)] show ?thesis by simp
qed

theorem noise_between_frames_witness:
  "is_frame accept_all ubx_example \<and> is_frame accept_all nmea_example
   \<and> length [[0x00, 0x62], [0x0A, 0xFF, 0x47 :: byte]] = length [ubx_example, nmea_example]
   \<and> drain accept_all [] (interleave [[0x00, 0x62], [0x0A, 0xFF, 0x47]] [ubx_example, nmea_example] @ [0x0D])
       = (Inr [0x0D], [] @ concat (map (emitted accept_all) [ubx_example, nmea_example]))
   \<and> concat (map (emitted accept_all) [ubx_example, nmea_example])
       = [(ubx_example, UBX), (nmea_example, NMEA)]"
proof -
  let ?fs = "[ubx_example, nmea_example]"
  let ?ns = "[[0x00, 0x62], [0x0A, 0xFF, 0x47]] :: bytes list"
  have u: "is_frame accept_all ubx_example" by code_simp
  have n: "is_frame accept_all nmea_example" by code_simp
  have h1: "\<forall>f\<in>set ?fs. is_frame accept_all f" using u n by simp
  have h2: "length ?ns = length ?fs" by simp
  have h3: "\<forall>n\<in>set ([0x0D] # ?ns). \<forall>b\<in>set n. b \<notin> {0x24, 0xB5, 0xD3 :: byte}" by simp
  from noise_between_frames[OF h1 h2 h3, of "[]"]
  have d: "drain accept_all [] (interleave ?ns ?fs @ [0x0D])
       = (Inr [0x0D], [] @ concat (map (emitted accept_all) ?fs))" by blast
  have e: "concat (map (emitted accept_all) ?fs) = [(ubx_example, UBX), (nmea_example, NMEA)]"
    by code_simp
  from u n h2 d e show ?thesis by blast
qed

text \<open>
  The hypothesis on the noise is needed. A lone \<open>0xB5\<close> in front of a UBX frame is read
  together with the frame's first byte as a two-byte candidate that matches no header;
  the cursor moves on by 2, into the frame, and the frame is not emitted.
\<close>

lemma sync_byte_as_noise_example:
  "drain accept_all [] ([0xB5] @ ubx_example) = (Inr ([0xB5] @ ubx_example), [])"
  by code_simp

subsection \<open>The concrete scenario\<close>

text \<open>
  C2, with the byte count the code has. The buffer is the 10-byte UBX frame
  \<open>B5 62 01 02 02 00 AA BB ck_a ck_b\<close> immediately followed by the sentence
  \<open>$GPGGA,\<close> \<open>rest\<close> \<open>CR LF\<close> (no carriage return inside \<open>rest\<close>), and the decoders
  accept the two frames. Feeding it whole, or split after byte 3, emits exactly two
  frames in order: first the UBX frame, which takes 10 bytes of the buffer
  (\<open>2 + 4 + 2 + 2\<close>), then the sentence, which takes everything up to and including the
  CR LF; the buffer is empty afterwards.
\<close>

theorem scenario_two_frames:
  assumes "ubx_parse D (scenario_ubx ck_a ck_b) = Inr p1"
    and "nmea_parse D (scenario_nmea rest) = Inr p2" and "0x0D \<notin> set rest"
  shows "read_thread D [scenario_ubx ck_a ck_b @ scenario_nmea rest] [] []
           = (Inr [], [(scenario_ubx ck_a ck_b, p1), (scenario_nmea rest, p2)])
       \<and> read_thread D [take 3 (scenario_ubx ck_a ck_b @ scenario_nmea rest),
                         drop 3 (scenario_ubx ck_a ck_b @ scenario_nmea rest)] [] []
           = (Inr [], [(scenario_ubx ck_a ck_b, p1), (scenario_nmea rest, p2)])
       \<and> parse_buffer D [] (scenario_ubx ck_a ck_b @ scenario_nmea rest)
           = (Inr (Some (scenario_ubx ck_a ck_b), scenario_nmea rest), [(scenario_ubx ck_a ck_b, p1)])
       \<and> length (scenario_ubx ck_a ck_b @ scenario_nmea rest) - length (scenario_nmea rest) = 10
       \<and> parse_buffer D [(scenario_ubx ck_a ck_b, p1)] (scenario_nmea rest)
           = (Inr (Some (scenario_nmea rest), []), [(scenario_ubx ck_a ck_b, p1), (scenario_nmea rest, p2)])"
proof -
  let ?u = "scenario_ubx ck_a ck_b" and ?n = "scenario_nmea rest"
  note fu = is_frame_tryI[OF scenario_ubx_frame[OF assms(1)]]
  note fn = is_frame_tryI[OF scenario_nmea_frame[OF assms(2,3)]]
  have fs: "\<forall>f\<in>set [?u, ?n]. is_frame D f" using fu(1) fn(1) by simp
  have em: "concat (map (emitted D) [?u, ?n]) = [(?u, p1), (?n, p2)]"
    using fu(2) fn(2) by simp
  have whole: "read_thread D [?u @ ?n] [] [] = (Inr [], [(?u, p1), (?n, p2)])"
    using read_thread_single[OF fs, of "[]"] em by simp
  have ne: "[] \<notin> set [take 3 (?u @ ?n), drop 3 (?u @ ?n)]"
    by (simp add: scenario_ubx_def scenario_nmea_def)
  have st: "([?u, ?n] = [] \<and> ([] :: bytes) = [])
      \<or> (\<exists>f fs' ext. [?u, ?n] = f # fs' \<and> f = [] @ ext \<and> ext \<noteq> [])"
    by (simp add: scenario_ubx_def)
  have "read_thread D [take 3 (?u @ ?n), drop 3 (?u @ ?n)] [] []
      = (Inr [], [] @ concat (map (emitted D) [?u, ?n]))"
    by (rule read_thread_frames[OF fs ne _ st]) (simp del: take_append drop_append)
  then have split: "read_thread D [take 3 (?u @ ?n), drop 3 (?u @ ?n)] [] [] = (Inr [], [(?u, p1), (?n, p2)])"
    using em by simp
  have first: "parse_buffer D [] (?u @ ?n) = (Inr (Some ?u, ?n), [(?u, p1)])"
    using is_frame_head[OF fu(1), of "[]" ?n] fu(2) by simp
  have second: "parse_buffer D [(?u, p1)] ?n = (Inr (Some ?n, []), [(?u, p1), (?n, p2)])"
    using is_frame_parse[OF fn(1), of "[(?u, p1)]"] fn(2) by simp
  have ten: "length (?u @ ?n) - length ?n = 10" by (simp add: scenario_ubx_def)
  from whole split first ten second show ?thesis by blast
qed

theorem scenario_two_frames_witness:
  "ubx_parse accept_all (scenario_ubx 0x6A 0x27) = Inr UBX
   \<and> nmea_parse accept_all (scenario_nmea [0x2A, 0x30, 0x30]) = Inr NMEA
   \<and> 0x0D \<notin> set [0x2A, 0x30, 0x30 :: byte]
   \<and> read_thread accept_all [take 3 (scenario_ubx 0x6A 0x27 @ scenario_nmea [0x2A, 0x30, 0x30]),
                         drop 3 (scenario_ubx 0x6A 0x27 @ scenario_nmea [0x2A, 0x30, 0x30])] [] []
           = (Inr [], [(scenario_ubx 0x6A 0x27, UBX), (scenario_nmea [0x2A, 0x30, 0x30], NMEA)])
   \<and> scenario_ubx 0x6A 0x27 = ubx_example
   \<and> scenario_nmea [0x2A, 0x30, 0x30] = nmea_example"
proof -
  have h1: "ubx_parse accept_all (scenario_ubx 0x6A 0x27) = Inr UBX" by (simp add: accept_all_def)
  have h2: "nmea_parse accept_all (scenario_nmea [0x2A, 0x30, 0x30]) = Inr NMEA"
    by (simp add: accept_all_def)
  have h3: "0x0D \<notin> set [0x2A, 0x30, 0x30 :: byte]" by simp
  have e1: "scenario_ubx 0x6A 0x27 = ubx_example" by (simp add: scenario_ubx_def ubx_example_def)
  have e2: "scenario_nmea [0x2A, 0x30, 0x30] = nmea_example"
    by (simp add: scenario_nmea_def nmea_example_def)
  from scenario_two_frames[OF h1 h2 h3] h1 h2 h3 e1 e2 show ?thesis by blast
qed

text \<open>
  The specification's count of 9 bytes for the UBX frame does not hold: on the scenario's
  buffer the extracted frame has 10 bytes and the returned buffer is 10 bytes shorter.
\<close>

theorem scenario_nine_bytes_counterexample:
  "parse_buffer accept_all [] (scenario_ubx 0x6A 0x27 @ scenario_nmea [0x2A, 0x30, 0x30])
     = (Inr (Some (scenario_ubx 0x6A 0x27), scenario_nmea [0x2A, 0x30, 0x30]),
        [(scenario_ubx 0x6A 0x27, UBX)])
   \<and> length (scenario_ubx 0x6A 0x27) \<noteq> 9
   \<and> length (scenario_ubx 0x6A 0x27 @ scenario_nmea [0x2A, 0x30, 0x30])
       - length (scenario_nmea [0x2A, 0x30, 0x30]) \<noteq> 9"
  by code_simp

end
